theory Spec2Isabelle
  imports Complex_Main "HOL-Library.Extended_Nat" "HOL-Library.Sublist" "HOL-Library.Word"
begin

section \<open>Perceptual hashing (frontend/src/utils/duplicateDetection.ts)\<close>

text \<open>
  JavaScript strings are modelled as \<open>string\<close>; the hashes are ASCII.  A JavaScript
  number that may be \<open>NaN\<close> is an \<open>option\<close> (\<open>None\<close> is \<open>NaN\<close>); the Hamming
  distance, which may be \<open>Infinity\<close>, is an \<open>enat\<close>.
\<close>

text \<open>
  The fields \<open>width\<close> and \<open>height\<close> of \<open>ImageHash\<close> are \<open>imageWidth\<close> and \<open>imageHeight\<close> here;
  the short names stay free for the parameters of \<open>calculateBlurScore\<close>.
\<close>

record ImageHash =
  hash :: string
  imageWidth :: nat
  imageHeight :: nat

text \<open>The field \<open>id\<close> of the source is \<open>gid\<close> here (\<open>id\<close> is HOL's identity).\<close>

record DuplicateGroup =
  gid :: string
  photos :: "string list"
  similarity :: real

subsection \<open>Number formatting and parsing\<close>

definition digitChar :: "nat \<Rightarrow> char" where
  "digitChar d = (if d < 10 then char_of (48 + d) else char_of (87 + d))"

text \<open>\<open>n.toString(radix)\<close> for a non-negative integer: no leading zeros, lower case.\<close>

fun toStringRadix :: "nat \<Rightarrow> nat \<Rightarrow> string" where
  "toStringRadix radix n =
     (if n < radix \<or> radix < 2 then [digitChar n]
      else toStringRadix radix (n div radix) @ [digitChar (n mod radix)])"

declare toStringRadix.simps [simp del]

text \<open>\<open>x.toString(radix)\<close> for a number that may be \<open>NaN\<close>.\<close>

definition numToString :: "nat \<Rightarrow> nat option \<Rightarrow> string" where
  "numToString radix x = (case x of None \<Rightarrow> ''NaN'' | Some n \<Rightarrow> toStringRadix radix n)"

text \<open>\<open>s.padStart(n, c)\<close> for a one-character pad string.\<close>

definition padStart :: "nat \<Rightarrow> char \<Rightarrow> string \<Rightarrow> string" where
  "padStart n c s = replicate (n - length s) c @ s"

text \<open>
  \<open>parseInt(c, 16)\<close> of a one-character string: the value of a hexadecimal digit of
  either case, \<open>NaN\<close> for every other character.
\<close>

definition parseHexChar :: "char \<Rightarrow> nat option" where
  "parseHexChar c =
     (let n = (of_char c :: nat) in
      if 48 \<le> n \<and> n \<le> 57 then Some (n - 48)
      else if 97 \<le> n \<and> n \<le> 102 then Some (n - 87)
      else if 65 \<le> n \<and> n \<le> 70 then Some (n - 55)
      else None)"

text \<open>
  \<open>parseInt(chunk, 2)\<close>: the value of the longest prefix of binary digits, \<open>NaN\<close> when
  that prefix is empty.  (The sign and leading white space that \<open>parseInt\<close> also accepts
  do not occur: the chunks are cut from a string of \<open>0\<close> and \<open>1\<close>.)
\<close>

definition isBinaryDigit :: "char \<Rightarrow> bool" where
  "isBinaryDigit c = (c = CHR ''0'' \<or> c = CHR ''1'')"

definition parseBinary :: "string \<Rightarrow> nat option" where
  "parseBinary chunk =
     (let ds = takeWhile isBinaryDigit chunk in
      if ds = [] then None
      else Some (foldl (\<lambda>n c. 2 * n + (if c = CHR ''1'' then 1 else 0)) 0 ds))"

subsection \<open>binaryToHex and hexToBinary\<close>

function binaryToHex :: "string \<Rightarrow> string" where
  "binaryToHex binary =
     (if binary = [] then []
      else numToString 16 (parseBinary (take 4 binary)) @ binaryToHex (drop 4 binary))"
  by pat_completeness auto
termination
  by (relation "measure length") auto

declare binaryToHex.simps [simp del]

definition hexToBinary :: "string \<Rightarrow> string" where
  "hexToBinary hex =
     foldl (\<lambda>binary c. binary @ padStart 4 (CHR ''0'') (numToString 2 (parseHexChar c))) [] hex"

subsection \<open>calculateHammingDistance and calculateSimilarity\<close>

text \<open>
  The loop runs over the indices of \<open>binary1\<close> and counts the positions where the two
  characters differ.  Both strings have four characters per character of the hash (also
  for a character that is no hexadecimal digit, which becomes \<open>0NaN\<close>), so after the
  length check every index is in range of both.
\<close>

definition calculateHammingDistance :: "string \<Rightarrow> string \<Rightarrow> enat" where
  "calculateHammingDistance hash1 hash2 =
     (if length hash1 \<noteq> length hash2 then \<infinity>
      else
        let binary1 = hexToBinary hash1; binary2 = hexToBinary hash2 in
        enat (foldl (\<lambda>distance i. if binary1 ! i \<noteq> binary2 ! i then distance + 1 else distance)
                0 [0..<length binary1]))"

definition calculateSimilarity :: "string \<Rightarrow> string \<Rightarrow> real" where
  "calculateSimilarity hash1 hash2 =
     (let maxDistance = 64 in
      case calculateHammingDistance hash1 hash2 of
        \<infinity> \<Rightarrow> 0
      | enat distance \<Rightarrow> max 0 ((maxDistance - real distance) / maxDistance * 100))"

subsection \<open>findDuplicateGroups\<close>

text \<open>
  \<open>imageHashes\<close> is a JavaScript \<open>Map\<close>: an association list in insertion order,
  whose keys are distinct.  \<open>photoIds\<close> is the list of its keys and
  \<open>imageHashes.get\<close> is \<open>map_of\<close>; \<open>processed\<close> is a set.  The threshold is a
  finite number, a \<open>real\<close>.

  The inner loop, over the ids after position \<open>i\<close>: it carries \<open>similarPhotos\<close> and
  \<open>processed\<close>.
\<close>

fun innerLoop ::
  "(string \<rightharpoonup> ImageHash) \<Rightarrow> real \<Rightarrow> ImageHash \<Rightarrow> string list \<Rightarrow>
   string list \<Rightarrow> string set \<Rightarrow> string list \<times> string set" where
  "innerLoop get similarityThreshold hash1 [] similarPhotos processed =
     (similarPhotos, processed)"
| "innerLoop get similarityThreshold hash1 (photoId2 # rest) similarPhotos processed =
     (if photoId2 \<in> processed
      then innerLoop get similarityThreshold hash1 rest similarPhotos processed
      else case get photoId2 of
        None \<Rightarrow> innerLoop get similarityThreshold hash1 rest similarPhotos processed
      | Some hash2 \<Rightarrow>
          if calculateSimilarity (hash hash1) (hash hash2) \<ge> similarityThreshold
          then innerLoop get similarityThreshold hash1 rest
                 (similarPhotos @ [photoId2]) (insert photoId2 processed)
          else innerLoop get similarityThreshold hash1 rest similarPhotos processed)"

text \<open>The outer loop, over the ids from position \<open>i\<close> on: it carries \<open>processed\<close> and \<open>groups\<close>.\<close>

fun outerLoop ::
  "(string \<rightharpoonup> ImageHash) \<Rightarrow> real \<Rightarrow> string list \<Rightarrow> string set \<Rightarrow>
   DuplicateGroup list \<Rightarrow> DuplicateGroup list" where
  "outerLoop get similarityThreshold [] processed groups = groups"
| "outerLoop get similarityThreshold (photoId1 # rest) processed groups =
     (if photoId1 \<in> processed
      then outerLoop get similarityThreshold rest processed groups
      else case get photoId1 of
        None \<Rightarrow> outerLoop get similarityThreshold rest processed groups
      | Some hash1 \<Rightarrow>
          (case innerLoop get similarityThreshold hash1 rest [photoId1] processed of
            (similarPhotos, processed') \<Rightarrow>
              if length similarPhotos > 1
              then outerLoop get similarityThreshold rest (processed' \<union> set similarPhotos)
                     (groups @
                      [\<lparr>gid = ''dup_group_'' @ toStringRadix 10 (length groups + 1),
                        photos = similarPhotos,
                        similarity = similarityThreshold\<rparr>])
              else outerLoop get similarityThreshold rest (insert photoId1 processed')
                     groups))"

definition findDuplicateGroups :: "(string \<times> ImageHash) list \<Rightarrow> real \<Rightarrow> DuplicateGroup list" where
  "findDuplicateGroups imageHashes similarityThreshold =
     outerLoop (map_of imageHashes) similarityThreshold (map fst imageHashes) {} []"


section \<open>JavaScript numbers\<close>

text \<open>
  The arithmetic of the gray values is that of JavaScript numbers, which are IEEE 754
  doubles.  A finite double is an integer \<open>m\<close> of at most 53 bits times a power of two;
  \<open>Num m e\<close> stands for \<open>m * 2 ^ e\<close>, with \<open>m\<close> odd, or \<open>m = 0\<close> and \<open>e = 0\<close>, so that equal
  numbers are equal terms.  \<open>NaN\<close> is the value that arithmetic on \<open>undefined\<close> gives.  The
  infinities, the negative zero and the limits of the exponent are not represented: the
  numbers computed here come from bytes by a few products, sums, differences, a quotient
  and square roots, and stay finite and far from those limits.

  Every operation of the standard returns the exact result rounded to the nearest double,
  to the one with the even \<open>m\<close> when two are equally near.
\<close>

datatype number = Num int int | NaN

text \<open>The number of binary digits of a positive integer.\<close>

function bitLength :: "int \<Rightarrow> nat" where
  "bitLength n = (if n \<le> 0 then 0 else bitLength (n div 2) + 1)"
  by pat_completeness auto
termination
  by (relation "measure nat") auto

declare bitLength.simps [simp del]

text \<open>\<open>m * 2 ^ e\<close> with the factors 2 of \<open>m\<close> moved to the exponent.\<close>

function trim :: "int \<Rightarrow> int \<Rightarrow> number" where
  "trim m e =
     (if m = 0 then Num 0 0
      else if even m then trim (m div 2) (e + 1)
      else Num m e)"
  by pat_completeness auto
termination
proof (relation "measure (\<lambda>(m, e). nat \<bar>m\<bar>)")
  show "wf (measure (\<lambda>(m, e). nat \<bar>m\<bar>))" by simp
next
  fix m e :: int
  assume "m \<noteq> 0" "even m"
  then obtain k where "m = 2 * k" "k \<noteq> 0" by (auto elim: evenE)
  then show "((m div 2, e + 1), (m, e)) \<in> measure (\<lambda>(m, e). nat \<bar>m\<bar>)"
    by simp
qed

declare trim.simps [simp del]

text \<open>\<open>m / 2 ^ s\<close> rounded to the nearest integer, to the even one at a tie.\<close>

definition roundHalfEven :: "int \<Rightarrow> nat \<Rightarrow> int" where
  "roundHalfEven m s =
     (let q = m div 2 ^ s; r = m mod 2 ^ s
      in if 2 * r < 2 ^ s then q
         else if 2 * r > 2 ^ s then q + 1
         else if even q then q else q + 1)"

text \<open>The double nearest to \<open>m * 2 ^ e\<close>: \<open>m\<close> is rounded to 53 bits.\<close>

definition toNumber :: "int \<Rightarrow> int \<Rightarrow> number" where
  "toNumber m e =
     (let s = bitLength \<bar>m\<bar> - 53
      in trim (roundHalfEven m s) (e + int s))"

text \<open>\<open>x * y\<close>, \<open>x + y\<close>, \<open>x - y\<close> and \<open>x < y\<close>.\<close>

fun numMul :: "number \<Rightarrow> number \<Rightarrow> number" where
  "numMul (Num m1 e1) (Num m2 e2) = toNumber (m1 * m2) (e1 + e2)"
| "numMul _ _ = NaN"

fun numAdd :: "number \<Rightarrow> number \<Rightarrow> number" where
  "numAdd (Num m1 e1) (Num m2 e2) =
     (let e = min e1 e2
      in toNumber (m1 * 2 ^ nat (e1 - e) + m2 * 2 ^ nat (e2 - e)) e)"
| "numAdd _ _ = NaN"


fun numLess :: "number \<Rightarrow> number \<Rightarrow> bool" where
  "numLess (Num m1 e1) (Num m2 e2) =
     (let e = min e1 e2
      in m1 * 2 ^ nat (e1 - e) < m2 * 2 ^ nat (e2 - e))"
| "numLess _ _ = False"

text \<open>
  \<open>x / y\<close>.  The quotient of the integers is taken with more than 55 bits, and a last bit
  that says whether the division left a remainder, so that rounding it to 53 bits rounds
  the exact quotient.  A division by zero, whose result is an infinity or \<open>NaN\<close>, is given
  as \<open>NaN\<close>; the one division of the program has a positive divisor.
\<close>

fun numDiv :: "number \<Rightarrow> number \<Rightarrow> number" where
  "numDiv (Num m1 e1) (Num m2 e2) =
     (if m2 = 0 then NaN
      else
        let k = 55 + bitLength \<bar>m2\<bar>;
            q = (\<bar>m1\<bar> * 2 ^ k) div \<bar>m2\<bar>;
            r = (\<bar>m1\<bar> * 2 ^ k) mod \<bar>m2\<bar>;
            sticky = (if r = 0 then 0 else 1)
        in toNumber (sgn m1 * sgn m2 * (2 * q + sticky)) (e1 - e2 - int k - 1))"
| "numDiv _ _ = NaN"

text \<open>The integer square root, rounded down.\<close>

function isqrt :: "int \<Rightarrow> int" where
  "isqrt n =
     (if n < 2 then n
      else let r = 2 * isqrt (n div 4)
           in if (r + 1) * (r + 1) \<le> n then r + 1 else r)"
  by pat_completeness auto
termination
  by (relation "measure nat") auto

declare isqrt.simps [simp del]


text \<open>
  \<open>Math.round\<close>: the integer nearest to \<open>x\<close>, the larger one at a tie, which is the
  largest integer that \<open>x + 1/2\<close> reaches.
\<close>

fun mathRound :: "number \<Rightarrow> number" where
  "mathRound (Num m e) =
     (if e \<ge> 0 then Num m e
      else toNumber ((2 * m + 2 ^ nat (- e)) div 2 ^ (nat (- e) + 1)) 0)"
| "mathRound NaN = NaN"

text \<open>
  A decimal literal such as \<open>0.299\<close> is read as the double nearest to the fraction
  \<open>299 / 1000\<close> that it denotes.
\<close>

definition literal :: "int \<Rightarrow> int \<Rightarrow> number" where
  "literal n d = numDiv (toNumber n 0) (toNumber d 0)"

text \<open>The element of a \<open>Uint8ClampedArray\<close> as a number, and a count as a number.\<close>

type_synonym byte = "8 word"

definition ofByte :: "byte \<Rightarrow> number" where
  "ofByte b = toNumber (uint b) 0"

subsection \<open>calculateImageHash\<close>

text \<open>
  The body of \<open>img.onload\<close>, on the pixel data that \<open>getImageData\<close> returns for the 9-by-8
  canvas: a \<open>Uint8ClampedArray\<close> of bytes, four (red, green, blue, alpha) per pixel, row by
  row.  The paths that resolve \<open>null\<close> (no canvas context, an image that does not load)
  end before this computation starts.
\<close>

text \<open>
  \<open>0.299 * R + 0.587 * G + 0.114 * B\<close>: the three products and the two sums from left to
  right, each in double arithmetic.  The expression occurs in \<open>calculateImageHash\<close> and in
  \<open>calculateBlurScore\<close>.
\<close>

definition luminance :: "number \<Rightarrow> number \<Rightarrow> number \<Rightarrow> number" where
  "luminance r g b =
     numAdd (numAdd (numMul (literal 299 1000) r) (numMul (literal 587 1000) g))
            (numMul (literal 114 1000) b)"

text \<open>
  \<open>const gray = Math.round(0.299 * pixels[i] + 0.587 * pixels[i + 1] + 0.114 * pixels[i + 2])\<close>.
\<close>

definition grayValue :: "number \<Rightarrow> number \<Rightarrow> number \<Rightarrow> number" where
  "grayValue r g b = mathRound (luminance r g b)"

text \<open>
  The loop over the pixels.  Where the data ends inside a pixel, the missing channels are
  \<open>undefined\<close> and the gray value is \<open>NaN\<close>.
\<close>

fun grayPixels :: "byte list \<Rightarrow> number list" where
  "grayPixels (r # g # b # a # pixels) = grayValue (ofByte r) (ofByte g) (ofByte b) # grayPixels pixels"
| "grayPixels [r, g, b] = [grayValue (ofByte r) (ofByte g) (ofByte b)]"
| "grayPixels [] = []"
| "grayPixels pixels = [NaN]"

text \<open>
  \<open>grayPixels[i] < grayPixels[j]\<close>: false when an index is out of range (\<open>undefined\<close>) or
  a value is \<open>NaN\<close>.
\<close>

definition grayLess :: "number list \<Rightarrow> nat \<Rightarrow> nat \<Rightarrow> bool" where
  "grayLess gs i j = (i < length gs \<and> j < length gs \<and> numLess (gs ! i) (gs ! j))"

definition hashSize :: nat where
  "hashSize = 8"

text \<open>The two nested loops over \<open>row\<close> and \<open>col\<close>, which append to the string \<open>hash\<close>.\<close>

definition dHashBits :: "number list \<Rightarrow> string" where
  "dHashBits gs =
     foldl (\<lambda>hash row.
       foldl (\<lambda>hash col.
         let pixelIndex = row * (hashSize + 1) + col;
             rightPixelIndex = pixelIndex + 1
         in if grayLess gs pixelIndex rightPixelIndex then hash @ ''1'' else hash @ ''0'')
       hash [0..<hashSize])
     [] [0..<hashSize]"

definition calculateImageHash :: "byte list \<Rightarrow> nat \<Rightarrow> nat \<Rightarrow> ImageHash" where
  "calculateImageHash pixels naturalWidth naturalHeight =
     \<lparr>hash = binaryToHex (dHashBits (grayPixels pixels)),
      imageWidth = naturalWidth, imageHeight = naturalHeight\<rparr>"

text \<open>The character that the loop body appends at \<open>(row, col)\<close>.\<close>

definition codeBit :: "number list \<Rightarrow> nat \<Rightarrow> nat \<Rightarrow> char" where
  "codeBit gs row col =
     (if grayLess gs (row * 9 + col) (row * 9 + col + 1) then CHR ''1'' else CHR ''0'')"

text \<open>
  For the statements: the gray value that the code computes for the pixel in row \<open>row\<close>
  and column \<open>col\<close> of the 9-by-8 grid, and the bit that compares it with the gray value of
  the pixel to its right.
\<close>

definition grayAt :: "byte list \<Rightarrow> nat \<Rightarrow> nat \<Rightarrow> number" where
  "grayAt pixels row col =
     grayValue (ofByte (pixels ! (4 * (row * 9 + col)))) (ofByte (pixels ! (4 * (row * 9 + col) + 1)))
          (ofByte (pixels ! (4 * (row * 9 + col) + 2)))"

definition specBit :: "byte list \<Rightarrow> nat \<Rightarrow> nat \<Rightarrow> char" where
  "specBit pixels row col =
     (if numLess (grayAt pixels row col) (grayAt pixels row (col + 1))
      then CHR ''1'' else CHR ''0'')"

text \<open>
  Following the words of the specification, not the code: the luminance
  \<open>0.299 R + 0.587 G + 0.114 B\<close> of a pixel as a number of thousandths in exact arithmetic,
  and rounded to the nearest integer, halves up as \<open>Math.round\<close> does.
\<close>

definition exactLuminance1000 :: "byte \<Rightarrow> byte \<Rightarrow> byte \<Rightarrow> int" where
  "exactLuminance1000 r g b = 299 * uint r + 587 * uint g + 114 * uint b"

definition roundedLuminance :: "byte \<Rightarrow> byte \<Rightarrow> byte \<Rightarrow> int" where
  "roundedLuminance r g b = (exactLuminance1000 r g b + 500) div 1000"

text \<open>An example: a white pixel at row 0, column 1 of an otherwise black 9-by-8 image.\<close>

definition onePixelImage :: "byte list" where
  "onePixelImage = [0, 0, 0, 255, 255, 255, 255, 255] @ replicate 280 0"

text \<open>
  An example: the pixel at row 0, column 0 has the colour \<open>(22, 22, 22)\<close> and the pixel to
  its right the colour \<open>(0, 36, 12)\<close>, whose luminance is \<open>22.5\<close>; the other pixels are
  black.
\<close>

definition tieImage :: "byte list" where
  "tieImage = [22, 22, 22, 255, 0, 36, 12, 255] @ replicate 280 0"

subsection \<open>Notions used in the statements about hashes\<close>

text \<open>The four characters that \<open>hexToBinary\<close> appends for one character of the hash.\<close>

definition hexCharBits :: "char \<Rightarrow> string" where
  "hexCharBits c = padStart 4 (CHR ''0'') (numToString 2 (parseHexChar c))"

text \<open>The four bits of a number below 16, most significant first.\<close>

definition nibbleBits :: "nat \<Rightarrow> string" where
  "nibbleBits d = map (\<lambda>k. digitChar ((d div 2 ^ k) mod 2)) [3, 2, 1, 0]"

definition isHexChar :: "char \<Rightarrow> bool" where
  "isHexChar c = (parseHexChar c \<noteq> None)"

text \<open>The digits that \<open>toString(16)\<close> produces.\<close>

definition isLowerHex :: "char \<Rightarrow> bool" where
  "isLowerHex c = (c \<in> set ''0123456789abcdef'')"

text \<open>A fingerprint: 16 hexadecimal characters, that is 64 bits.\<close>

definition isFingerprint :: "string \<Rightarrow> bool" where
  "isFingerprint h = (length h = 16 \<and> list_all isHexChar h)"

text \<open>The number of positions at which two lists differ.\<close>

definition diffCount :: "'a list \<Rightarrow> 'a list \<Rightarrow> nat" where
  "diffCount xs ys = length (filter (\<lambda>(a, b). a \<noteq> b) (zip xs ys))"

subsection \<open>The clustering policy as the specification words it\<close>

text \<open>
  Ids are taken in insertion order.  An id that is not yet assigned becomes a seed; the
  later ids that are not yet assigned and whose similarity to the seed meets the threshold
  join it (\<open>joins\<close>).  A seed with at least one joiner is emitted as a group with the next
  group number; a seed with none is only marked.  \<open>n\<close> is the number of groups emitted so
  far.
\<close>

definition joins :: "real \<Rightarrow> ImageHash \<Rightarrow> string set \<Rightarrow> string \<times> ImageHash \<Rightarrow> bool" where
  "joins t seedHash assigned x =
     (fst x \<notin> assigned \<and> calculateSimilarity (hash seedHash) (hash (snd x)) \<ge> t)"

fun clusterSpec ::
  "real \<Rightarrow> (string \<times> ImageHash) list \<Rightarrow> string set \<Rightarrow> nat \<Rightarrow> DuplicateGroup list" where
  "clusterSpec t [] assigned n = []"
| "clusterSpec t ((seed, seedHash) # later) assigned n =
     (if seed \<in> assigned then clusterSpec t later assigned n
      else if filter (joins t seedHash assigned) later = []
      then clusterSpec t later (insert seed assigned) n
      else
        \<lparr>gid = ''dup_group_'' @ toStringRadix 10 (n + 1),
         photos = seed # map fst (filter (joins t seedHash assigned) later),
         similarity = t\<rparr>
        # clusterSpec t later
            (insert seed assigned \<union> fst ` set (filter (joins t seedHash assigned) later))
            (n + 1))"

subsection \<open>Example fingerprint maps\<close>

text \<open>
  Four photos: \<open>A\<close> and \<open>B\<close> have the same fingerprint, \<open>C\<close> and \<open>D\<close> have the same
  fingerprint, and the two fingerprints differ in 16 of the 64 bits (similarity 75).
\<close>

definition fourPhotos :: "(string \<times> ImageHash) list" where
  "fourPhotos =
     [(''A'', \<lparr>hash = ''0000000000000000'', imageWidth = 9, imageHeight = 8\<rparr>),
      (''B'', \<lparr>hash = ''0000000000000000'', imageWidth = 9, imageHeight = 8\<rparr>),
      (''C'', \<lparr>hash = ''ffff000000000000'', imageWidth = 9, imageHeight = 8\<rparr>),
      (''D'', \<lparr>hash = ''ffff000000000000'', imageWidth = 9, imageHeight = 8\<rparr>)]"

text \<open>Two photos: a 16-character fingerprint and a 32-character MD5 checksum.\<close>

definition mixedPhotos :: "(string \<times> ImageHash) list" where
  "mixedPhotos =
     [(''A'', \<lparr>hash = ''0000000000000000'', imageWidth = 9, imageHeight = 8\<rparr>),
      (''B'', \<lparr>hash = ''d41d8cd98f00b204e9800998ecf8427e'', imageWidth = 9, imageHeight = 8\<rparr>)]"

section \<open>Embedded preview extraction (frontend/src/utils/rawThumbnailExtractor.ts)\<close>

text \<open>A \<open>Uint8Array\<close> is a list of bytes; \<open>null\<close> is \<open>None\<close>.\<close>

subsection \<open>findJpegMarker\<close>

text \<open>
  The inner loop over \<open>j\<close>: whether the marker stands at offset \<open>i\<close>.  It is only run for
  \<open>i \<le> data.length - marker.length\<close>, where every index \<open>i + j\<close> is in range.
\<close>

definition markerAt :: "byte list \<Rightarrow> byte list \<Rightarrow> nat \<Rightarrow> bool" where
  "markerAt data marker i = list_all (\<lambda>j. data ! (i + j) = marker ! j) [0..<length marker]"

text \<open>
  The outer loop, from \<open>i\<close> on; the result is the offset found, or \<open>-1\<close>.  The loop condition
  \<open>i <= data.length - marker.length\<close> is written without the subtraction, which may be
  negative.
\<close>

function findJpegMarker :: "byte list \<Rightarrow> byte list \<Rightarrow> nat \<Rightarrow> int" where
  "findJpegMarker data marker i =
     (if i + length marker \<le> length data
      then if markerAt data marker i then int i
           else findJpegMarker data marker (i + 1)
      else - 1)"
  by pat_completeness auto
termination
  by (relation "measure (\<lambda>(data, marker, i). length data + 1 - i)") auto

declare findJpegMarker.simps [simp del]

lemma findJpegMarker_range:
  "0 \<le> findJpegMarker data marker i \<Longrightarrow>
   int i \<le> findJpegMarker data marker i
   \<and> findJpegMarker data marker i + int (length marker) \<le> int (length data)"
proof (induction data marker i rule: findJpegMarker.induct)
  case (1 data marker i)
  show ?case
  proof (cases "i + length marker \<le> length data")
    case False
    then show ?thesis using "1.prems" by (subst (asm) findJpegMarker.simps) simp
  next
    case True
    show ?thesis
    proof (cases "markerAt data marker i")
      case found: True
      have "findJpegMarker data marker i = int i"
        by (subst findJpegMarker.simps) (simp add: True found)
      then show ?thesis using True by simp
    next
      case notfound: False
      have eq: "findJpegMarker data marker i = findJpegMarker data marker (i + 1)"
        by (subst findJpegMarker.simps) (simp add: True notfound)
      show ?thesis
        using "1.IH" [OF True notfound] "1.prems" unfolding eq by simp
    qed
  qed
qed

subsection \<open>findBestJpegPreview\<close>

text \<open>\<open>data.slice(start, end)\<close> for \<open>0 \<le> start\<close> and \<open>0 \<le> end\<close>.\<close>

definition slice :: "'a list \<Rightarrow> nat \<Rightarrow> nat \<Rightarrow> 'a list" where
  "slice data start end = take (end - start) (drop start data)"

text \<open>The \<open>while\<close> loop; it carries \<open>searchStart\<close> and \<open>jpegPreviews\<close>.\<close>

function scanPreviews :: "byte list \<Rightarrow> nat \<Rightarrow> byte list list \<Rightarrow> byte list list" where
  "scanPreviews data searchStart jpegPreviews =
     (if searchStart < length data
      then
        let jpegStart = findJpegMarker data [0xFF, 0xD8] searchStart in
        if jpegStart < 0 then jpegPreviews
        else
          let jpegEnd = findJpegMarker data [0xFF, 0xD9] (nat jpegStart + 2) in
          scanPreviews data (nat jpegStart + 2)
            (if jpegEnd \<ge> 0 \<and> jpegEnd > jpegStart
             then
               let jpegData = slice data (nat jpegStart) (nat jpegEnd + 2) in
               if length jpegData > 1024 then jpegPreviews @ [jpegData] else jpegPreviews
             else jpegPreviews)
      else jpegPreviews)"
  by pat_completeness auto
termination
proof (relation "measure (\<lambda>(data, searchStart, jpegPreviews). length data - searchStart)")
  show "wf (measure (\<lambda>(data, searchStart, jpegPreviews). length data - searchStart))"
    by simp
next
  fix data :: "byte list" and searchStart :: nat and jpegPreviews :: "byte list list"
    and jpegStart jpegEnd :: int
  assume lt: "searchStart < length data"
    and s: "jpegStart = findJpegMarker data [0xFF, 0xD8] searchStart"
    and nonneg: "\<not> jpegStart < 0"
  have "int searchStart \<le> jpegStart"
    using findJpegMarker_range [of data "[0xFF, 0xD8]" searchStart] nonneg s by simp
  then show "((data, nat jpegStart + 2,
        if 0 \<le> jpegEnd \<and> jpegStart < jpegEnd
        then let jpegData = slice data (nat jpegStart) (nat jpegEnd + 2)
             in if 1024 < length jpegData then jpegPreviews @ [jpegData] else jpegPreviews
        else jpegPreviews),
       data, searchStart, jpegPreviews)
      \<in> measure (\<lambda>(data, searchStart, jpegPreviews). length data - searchStart)"
    using lt by simp
qed

declare scanPreviews.simps [simp del]

text \<open>
  \<open>reduce\<close> without an initial value: it starts from the first element and keeps the
  current largest, replacing it only by a strictly longer one.
\<close>

definition findBestJpegPreview :: "byte list \<Rightarrow> byte list option" where
  "findBestJpegPreview data =
     (let jpegPreviews = scanPreviews data 0 [] in
      if length jpegPreviews = 0 then None
      else Some (foldl (\<lambda>largest current.
                   if length current > length largest then current else largest)
                 (hd jpegPreviews) (tl jpegPreviews)))"

subsection \<open>The candidates as the specification words them\<close>

text \<open>
  A two-byte marker stands at offset \<open>i\<close>.  A candidate is the span from an occurrence of
  the start marker \<open>FF D8\<close> to the nearest end marker \<open>FF D9\<close> that follows it, both
  markers included, when it is longer than 1024 bytes.
\<close>

definition pairAt :: "byte list \<Rightarrow> byte \<Rightarrow> byte \<Rightarrow> nat \<Rightarrow> bool" where
  "pairAt data b0 b1 i = (i + 1 < length data \<and> data ! i = b0 \<and> data ! (i + 1) = b1)"

definition spanFrom :: "byte list \<Rightarrow> nat \<Rightarrow> byte list list" where
  "spanFrom data s =
     (case find (pairAt data 0xFF 0xD9) [s + 2..<length data] of
        None \<Rightarrow> []
      | Some e \<Rightarrow> if e + 2 - s > 1024 then [slice data s (e + 2)] else [])"

definition candidateSpans :: "byte list \<Rightarrow> byte list list" where
  "candidateSpans data =
     concat (map (spanFrom data) (filter (pairAt data 0xFF 0xD8) [0..<length data]))"

text \<open>
  An example buffer: a span of 4 KiB followed by a span of 40 KiB, each a start marker,
  zero bytes and an end marker.
\<close>

definition span4k :: "byte list" where
  "span4k = [0xFF, 0xD8] @ replicate 4092 0 @ [0xFF, 0xD9]"

definition span40k :: "byte list" where
  "span40k = [0xFF, 0xD8] @ replicate 40956 0 @ [0xFF, 0xD9]"

definition twoSpans :: "byte list" where
  "twoSpans = span4k @ span40k"

section \<open>Sharpness score (frontend/src/utils/qualityAnalysis.ts)\<close>














section \<open>Directory scanner (backend/src/scanner.js)\<close>

text \<open>
  The state of a \<open>DirectoryScanner\<close> object, as its constructor declares it.
\<close>

record Progress =
  totalFiles :: nat
  processedFiles :: nat
  currentFile :: string
  phase :: string

record DirectoryScanner =
  isScanning :: bool
  progress :: Progress
  thumbnailsDir :: "string option"

definition initialProgress :: Progress where
  "initialProgress =
     \<lparr>totalFiles = 0, processedFiles = 0, currentFile = '''', phase = ''scanning''\<rparr>"

definition newScanner :: DirectoryScanner where
  "newScanner = \<lparr>isScanning = False, progress = initialProgress, thumbnailsDir = None\<rparr>"

text \<open>
  \<open>scanDirectory\<close> is an \<open>async\<close> function.  JavaScript runs the code between two
  \<open>await\<close>s without interruption, and other calls can only run while an activation is
  suspended at an \<open>await\<close>.  An activation that has passed the guard is therefore a task
  suspended at one of its \<open>await\<close>s: in \<open>getThumbnailsDirectory\<close> at \<open>fs.access\<close> or at
  \<open>fs.mkdir\<close>, at \<open>findImageFiles\<close>, or at \<open>processFile\<close> for one file, with the files
  still to come and the photos collected so far.  A photo is represented by the path of
  its file.
\<close>

datatype task =
    AwaitAccess string
  | AwaitMkdir string
  | AwaitFindFiles string
  | AwaitProcessFile string "string list" "string list"

text \<open>How a call of \<open>scanDirectory\<close> ended: its promise is fulfilled or rejected.\<close>

datatype outcome = Returned "string list" | Threw string

text \<open>
  The scanner object, the suspended activations in the order of their calls, and the
  outcomes of the calls that have ended.
\<close>

record system =
  scanner :: DirectoryScanner
  tasks :: "task list"
  finished :: "outcome list"

definition initialSystem :: system where
  "initialSystem = \<lparr>scanner = newScanner, tasks = [], finished = []\<rparr>"

text \<open>
  What can happen: \<open>scanDirectory\<close> is called, or the operation that task \<open>i\<close> awaits
  settles.  \<open>fs.access\<close> and \<open>fs.mkdir\<close> resolve (\<open>True\<close>) or reject; \<open>findImageFiles\<close>
  catches its errors and resolves with the files; \<open>processFile\<close> resolves with a photo
  (\<open>Some (Some p)\<close>) or with nothing (\<open>Some None\<close>), or rejects (\<open>None\<close>).
\<close>

datatype event =
    Call string
  | AccessSettled nat bool
  | MkdirSettled nat bool
  | FilesFound nat "string list"
  | FileProcessed nat "string option option"

definition joinPath :: "string \<Rightarrow> string \<Rightarrow> string" where
  "joinPath dir name = dir @ ''/'' @ name"

definition basename :: "string \<Rightarrow> string" where
  "basename path = rev (takeWhile (\<lambda>c. c \<noteq> CHR ''/'') (rev path))"

text \<open>
  The call, up to its first \<open>await\<close>.  The guard stands before the \<open>try\<close>: a call made
  while \<open>isScanning\<close> is set throws and does not reach the \<open>finally\<close>.  Otherwise the flag
  is set, \<open>thumbnailsDir\<close> and \<open>progress\<close> are reset, and \<open>getThumbnailsDirectory\<close> stores the
  new \<open>thumbnailsDir\<close> and suspends at \<open>fs.access\<close>.
\<close>

definition scanDirectory :: "string \<Rightarrow> system \<Rightarrow> system" where
  "scanDirectory directoryPath s =
     (if isScanning (scanner s)
      then s\<lparr>finished := finished s @ [Threw ''Scan already in progress'']\<rparr>
      else
        s\<lparr>scanner := (scanner s)
             \<lparr>isScanning := True,
              progress := initialProgress,
              thumbnailsDir := Some (joinPath directoryPath ''_thumbnails'')\<rparr>,
          tasks := tasks s @ [AwaitAccess directoryPath]\<rparr>)"

text \<open>
  The end of task \<open>i\<close>, by \<open>return\<close> or by an exception that leaves the \<open>try\<close>: the
  \<open>finally\<close> block resets the flag, and the promise settles.
\<close>

definition dropTask :: "nat \<Rightarrow> task list \<Rightarrow> task list" where
  "dropTask i ts = take i ts @ drop (Suc i) ts"

definition finishScan :: "nat \<Rightarrow> outcome \<Rightarrow> system \<Rightarrow> system" where
  "finishScan i result s =
     s\<lparr>scanner := (scanner s)\<lparr>isScanning := False\<rparr>,
       tasks := dropTask i (tasks s),
       finished := finished s @ [result]\<rparr>"

text \<open>
  The head of the loop over \<open>files\<close> (\<open>photos'\<close> is the array \<open>photos\<close> of the source;
  the plain name is a field of \<open>DuplicateGroup\<close>): with no file left the phase becomes \<open>complete\<close> and
  the photos are returned; otherwise \<open>currentFile\<close> is set and the task suspends at
  \<open>processFile\<close>.
\<close>

definition nextFile :: "nat \<Rightarrow> string \<Rightarrow> string list \<Rightarrow> string list \<Rightarrow> system \<Rightarrow> system" where
  "nextFile i directoryPath files photos' s =
     (case files of
        [] \<Rightarrow>
          finishScan i (Returned photos')
            (s\<lparr>scanner := (scanner s)
                  \<lparr>progress := (progress (scanner s))\<lparr>phase := ''complete''\<rparr>\<rparr>\<rparr>)
      | filePath # rest \<Rightarrow>
          s\<lparr>scanner := (scanner s)
                \<lparr>progress := (progress (scanner s))\<lparr>currentFile := basename filePath\<rparr>\<rparr>,
            tasks := (tasks s)[i := AwaitProcessFile directoryPath rest photos']\<rparr>)"

text \<open>
  One step of the system.  An event for a task that does not exist, or that does not
  answer what the task awaits, changes nothing: the event loop never delivers one.
\<close>

definition step :: "event \<Rightarrow> system \<Rightarrow> system" where
  "step e s =
     (case e of
        Call directoryPath \<Rightarrow> scanDirectory directoryPath s
      | AccessSettled i ok \<Rightarrow>
          (if i < length (tasks s) then
             (case tasks s ! i of
                AwaitAccess d \<Rightarrow>
                  s\<lparr>tasks := (tasks s)[i := if ok then AwaitFindFiles d else AwaitMkdir d]\<rparr>
              | _ \<Rightarrow> s)
           else s)
      | MkdirSettled i ok \<Rightarrow>
          (if i < length (tasks s) then
             (case tasks s ! i of
                AwaitMkdir d \<Rightarrow>
                  if ok then s\<lparr>tasks := (tasks s)[i := AwaitFindFiles d]\<rparr>
                  else finishScan i (Threw ''mkdir failed'') s
              | _ \<Rightarrow> s)
           else s)
      | FilesFound i files \<Rightarrow>
          (if i < length (tasks s) then
             (case tasks s ! i of
                AwaitFindFiles d \<Rightarrow>
                  nextFile i d files []
                    (s\<lparr>scanner := (scanner s)
                          \<lparr>progress := (progress (scanner s))
                             \<lparr>totalFiles := length files, phase := ''analyzing''\<rparr>\<rparr>\<rparr>)
              | _ \<Rightarrow> s)
           else s)
      | FileProcessed i result \<Rightarrow>
          (if i < length (tasks s) then
             (case tasks s ! i of
                AwaitProcessFile d rest photos' \<Rightarrow>
                  nextFile i d rest
                    (case result of Some (Some photo) \<Rightarrow> photos' @ [photo] | _ \<Rightarrow> photos')
                    (s\<lparr>scanner := (scanner s)
                          \<lparr>progress := (progress (scanner s))
                             \<lparr>processedFiles := processedFiles (progress (scanner s)) + 1\<rparr>\<rparr>\<rparr>)
              | _ \<Rightarrow> s)
           else s))"

definition run :: "event list \<Rightarrow> system \<Rightarrow> system" where
  "run events s = foldl (\<lambda>s e. step e s) s events"

text \<open>
  The exclusion invariant: at most one activation is in flight, and the flag is set exactly
  when one is.
\<close>

definition scanInv :: "system \<Rightarrow> bool" where
  "scanInv s = (length (tasks s) \<le> 1 \<and> (isScanning (scanner s) \<longleftrightarrow> tasks s \<noteq> []))"

text \<open>
  An example run: a scan of \<open>/a\<close> starts, a call for \<open>/b\<close> arrives while it is in flight,
  and the first scan finds no files and returns.
\<close>

definition exampleRun :: "event list" where
  "exampleRun = [Call ''/a'', Call ''/b'', AccessSettled 0 True, FilesFound 0 []]"

section \<open>Trash handling (backend/src/index.js)\<close>

subsection \<open>Data\<close>

text \<open>
  A photo record of the request body (fields \<open>id\<close>, \<open>path\<close>, \<open>filename\<close>, \<open>size\<close>; \<open>path\<close> may be
  missing) and a metadata object (fields \<open>id\<close>, \<open>originalPath\<close>, \<open>filename\<close>, \<open>size\<close>,
  \<open>deletedAt\<close>, \<open>tempPath\<close>, and \<open>trashDir\<close>, which \<open>getAllTrashFiles\<close> adds).  The field names
  carry a prefix, since \<open>id\<close> and \<open>size\<close> are constants of HOL.  \<open>deletedAt\<close> is kept as the
  clock value, not formatted as an ISO string.
\<close>

record photo =
  ph_id :: string
  ph_path :: "string option"
  ph_filename :: string
  ph_size :: nat

record metadata =
  md_id :: string
  md_originalPath :: string
  md_filename :: string
  md_size :: nat
  md_deletedAt :: nat
  md_tempPath :: "string option"
  md_trashDir :: string

text \<open>
  What a file holds: the JSON text of a metadata object, or anything else, on which
  \<open>JSON.parse\<close> throws.
\<close>

datatype content = Json metadata | Blob

text \<open>
  The world of the server: the files by absolute path, in directory order and with
  distinct paths; the paths on which the operating system refuses \<open>rename\<close> and \<open>unlink\<close>
  (permissions); the lines written to the console; the global \<open>currentScanDirectory\<close>; and
  the clock, as the values that successive reads will return and the number of reads so
  far.  Directories are not part of the state: \<open>fs.access\<close> and \<open>fs.mkdir\<close> on the trash
  directory are taken to succeed.
\<close>

record world =
  wFiles :: "(string \<times> content) list"
  wLocked :: "string list"
  wConsole :: "string list"
  currentScanDirectory :: "string option"
  wClock :: "nat \<Rightarrow> nat"
  wClockReads :: nat

text \<open>
  What the handlers take from their environment: \<open>process.cwd()\<close>, and the replacement
  \<open>photo.filename.replace(/\s*\([^)]*\)/g, "")\<close>, a function from strings to strings that
  is not interpreted.
\<close>

record env =
  cwd :: string
  stripDecorations :: "string \<Rightarrow> string"

datatype 'a response = Ok200 'a | Error400 string | Error500 string

subsection \<open>The file system\<close>

definition filePaths :: "world \<Rightarrow> string set" where
  "filePaths w = fst ` set (wFiles w)"

text \<open>\<open>fs.access\<close>: whether it resolves.\<close>

definition fsAccess :: "string \<Rightarrow> world \<Rightarrow> bool" where
  "fsAccess path w = (path \<in> filePaths w)"

definition removeFile :: "string \<Rightarrow> (string \<times> content) list \<Rightarrow> (string \<times> content) list" where
  "removeFile path fs = filter (\<lambda>entry. fst entry \<noteq> path) fs"

text \<open>\<open>fs.unlink\<close>, \<open>fs.rename\<close> and \<open>fs.writeFile\<close>: \<open>None\<close> when the promise rejects.\<close>

definition fsUnlink :: "string \<Rightarrow> world \<Rightarrow> world option" where
  "fsUnlink path w =
     (if path \<in> filePaths w \<and> path \<notin> set (wLocked w)
      then Some (w\<lparr>wFiles := removeFile path (wFiles w)\<rparr>)
      else None)"

definition fsRename :: "string \<Rightarrow> string \<Rightarrow> world \<Rightarrow> world option" where
  "fsRename oldPath newPath w =
     (case map_of (wFiles w) oldPath of
        None \<Rightarrow> None
      | Some c \<Rightarrow>
          if oldPath \<in> set (wLocked w) then None
          else Some (w\<lparr>wFiles := removeFile newPath (removeFile oldPath (wFiles w)) @ [(newPath, c)]\<rparr>))"

definition fsWriteFile :: "string \<Rightarrow> content \<Rightarrow> world \<Rightarrow> world option" where
  "fsWriteFile path c w =
     (if path \<in> set (wLocked w) then None
      else Some (w\<lparr>wFiles := removeFile path (wFiles w) @ [(path, c)]\<rparr>))"

definition startsWith :: "string \<Rightarrow> string \<Rightarrow> bool" where
  "startsWith s p = (take (length p) s = p)"



definition consoleLog :: "string \<Rightarrow> world \<Rightarrow> world" where
  "consoleLog line w = w\<lparr>wConsole := wConsole w @ [line]\<rparr>"

text \<open>\<open>Date.now()\<close>: the next value of the clock.\<close>

definition dateNow :: "world \<Rightarrow> nat \<times> world" where
  "dateNow w = (wClock w (wClockReads w), w\<lparr>wClockReads := wClockReads w + 1\<rparr>)"

subsection \<open>getTrashDirectory and getAllTrashFiles\<close>

text \<open>
  \<open>join(baseDir, ".trash")\<close> throws a \<open>TypeError\<close> when \<open>currentScanDirectory\<close> is \<open>null\<close>:
  the result is \<open>None\<close>.  Paths are taken to be normalised, so that \<open>join\<close> is \<open>joinPath\<close>.
\<close>

definition getTrashDirectory :: "world \<Rightarrow> string option" where
  "getTrashDirectory w =
     (case currentScanDirectory w of
        None \<Rightarrow> None
      | Some baseDir \<Rightarrow> Some (joinPath baseDir ''.trash''))"



subsection \<open>The handler of DELETE /api/photos/empty-trash\<close>

text \<open>A string is truthy when it is present and not empty.\<close>

definition truthy :: "string option \<Rightarrow> bool" where
  "truthy s = (case s of None \<Rightarrow> False | Some t \<Rightarrow> t \<noteq> [])"




subsection \<open>The handler of POST /api/photos/move-to-trash\<close>

text \<open>
  The absolute path of a record that has a path: a path that does not start with \<open>/\<close> is
  joined to the working directory.
\<close>

definition absolutePathOf :: "env \<Rightarrow> string \<Rightarrow> string" where
  "absolutePathOf e path = (if startsWith path ''/'' then path else joinPath (cwd e) path)"

text \<open>The two lines that the \<open>catch\<close> of the loop body writes.\<close>

definition logFailure :: "photo \<Rightarrow> world \<Rightarrow> world" where
  "logFailure photo w =
     consoleLog ''Photo data''
       (consoleLog (''Failed to move '' @ ph_filename photo @ '' to trash'') w)"

text \<open>
  The body of the loop over the records, with its \<open>try\<close> and \<open>catch\<close>; it carries
  \<open>deletedFiles\<close>.  A missing path and a failing \<open>fs.access\<close> log and \<open>continue\<close>; a missing
  trash directory and a failing \<open>rename\<close> or \<open>writeFile\<close> are caught and logged.  The
  metadata is pushed after the \<open>rename\<close> and before the \<open>writeFile\<close>.
\<close>

definition moveBody :: "env \<Rightarrow> photo \<Rightarrow> metadata list \<Rightarrow> world \<Rightarrow> metadata list \<times> world" where
  "moveBody e photo deletedFiles w =
     (if \<not> truthy (ph_path photo)
      then (deletedFiles, consoleLog (''No path provided for photo '' @ ph_id photo) w)
      else
        let absolutePath = absolutePathOf e (the (ph_path photo)) in
        if \<not> fsAccess absolutePath w
        then (deletedFiles, consoleLog (''File not found: '' @ absolutePath) w)
        else
          (case getTrashDirectory w of
             None \<Rightarrow> (deletedFiles, logFailure photo w)
           | Some trashDir \<Rightarrow>
               (case dateNow w of
                  (timestamp, w1) \<Rightarrow>
                    let originalFilename = stripDecorations e (ph_filename photo);
                        trashFilename = toStringRadix 10 timestamp @ ''_'' @ originalFilename;
                        trashPath = joinPath trashDir trashFilename;
                        w2 = consoleLog (''Moving '' @ absolutePath @ '' to '' @ trashPath) w1
                    in
                    (case fsRename absolutePath trashPath w2 of
                       None \<Rightarrow> (deletedFiles, logFailure photo w2)
                     | Some w3 \<Rightarrow>
                         (case dateNow w3 of
                            (deletedAt, w4) \<Rightarrow>
                              let m = \<lparr>md_id = ph_id photo,
                                       md_originalPath = absolutePath,
                                       md_filename = originalFilename,
                                       md_size = ph_size photo,
                                       md_deletedAt = deletedAt,
                                       md_tempPath = Some trashPath,
                                       md_trashDir = []\<rparr>
                              in
                              (case fsWriteFile
                                      (joinPath trashDir (trashFilename @ ''.metadata.json''))
                                      (Json m) w4 of
                                 None \<Rightarrow> (deletedFiles @ [m], logFailure photo w4)
                               | Some w5 \<Rightarrow> (deletedFiles @ [m], w5)))))))"

text \<open>
  The loop over the elements of the array.  An element that is \<open>null\<close> makes \<open>photo.path\<close>
  throw a \<open>TypeError\<close>; the \<open>catch\<close> of the loop body throws again when it reads
  \<open>photo.filename\<close> for its message, and this second exception leaves the loop: the result
  is \<open>None\<close>, and the elements that follow are not processed.
\<close>

fun moveLoop ::
  "env \<Rightarrow> photo option list \<Rightarrow> metadata list \<Rightarrow> world \<Rightarrow> metadata list option \<times> world" where
  "moveLoop e [] deletedFiles w = (Some deletedFiles, w)"
| "moveLoop e (None # rest) deletedFiles w = (None, w)"
| "moveLoop e (Some photo # rest) deletedFiles w =
     (case moveBody e photo deletedFiles w of
        (deletedFiles', w') \<Rightarrow> moveLoop e rest deletedFiles' w')"

text \<open>
  The handler: a body without an array of records is answered with status 400; an
  exception that leaves the loop is caught by the outer \<open>catch\<close>, which logs it and answers
  with status 500 and the message of the exception (it depends on the engine and is given
  as \<open>TypeError\<close>); otherwise the answer is status 200 with \<open>deletedFiles\<close>.
\<close>

definition moveToTrash ::
  "env \<Rightarrow> photo option list option \<Rightarrow> world \<Rightarrow> metadata list response \<times> world" where
  "moveToTrash e body w =
     (case body of
        None \<Rightarrow> (Error400 ''Photos array is required'', w)
      | Some records \<Rightarrow>
          (case moveLoop e records [] w of
             (Some deletedFiles, w1) \<Rightarrow> (Ok200 deletedFiles, w1)
           | (None, w1) \<Rightarrow>
               (Error500 ''TypeError'', consoleLog ''Error moving files to trash'' w1)))"

subsection \<open>Notions used in the statements about the trash\<close>

text \<open>\<open>fs.unlink\<close> or \<open>fs.rename\<close> of the path would succeed.\<close>

definition deletable :: "world \<Rightarrow> string \<Rightarrow> bool" where
  "deletable w path = (path \<in> filePaths w \<and> path \<notin> set (wLocked w))"

text \<open>The file that a trash entry stands for.\<close>

definition backingPath :: "metadata \<Rightarrow> string" where
  "backingPath m = the (md_tempPath m)"

text \<open>The source file of a record, and whether the move of the record would succeed.\<close>

definition sourceOf :: "env \<Rightarrow> photo \<Rightarrow> string" where
  "sourceOf e photo = absolutePathOf e (the (ph_path photo))"

definition movable :: "env \<Rightarrow> world \<Rightarrow> photo \<Rightarrow> bool" where
  "movable e w photo = (truthy (ph_path photo) \<and> deletable w (sourceOf e photo))"

text \<open>
  The records of a batch whose move succeeds, given the file system \<open>w\<close> before the batch:
  those with a path to a file that exists and can be renamed, unless an earlier record of
  the batch has moved the same file away (\<open>gone\<close> lists the files moved so far).
\<close>

fun movedRecords :: "env \<Rightarrow> world \<Rightarrow> string list \<Rightarrow> photo list \<Rightarrow> photo list" where
  "movedRecords e w gone [] = []"
| "movedRecords e w gone (photo # rest) =
     (if movable e w photo \<and> sourceOf e photo \<notin> set gone
      then photo # movedRecords e w (sourceOf e photo # gone) rest
      else movedRecords e w gone rest)"

text \<open>
  An example trash directory \<open>/p/.trash\<close>: three entries with their files, and the sidecar
  \<open>4_d.jpg.metadata.json\<close> whose file \<open>4_d.jpg\<close> is missing.
\<close>

definition sidecarOf :: "string \<Rightarrow> string \<Rightarrow> metadata" where
  "sidecarOf ident name =
     \<lparr>md_id = ident, md_originalPath = ''/p/'' @ name, md_filename = name, md_size = 1,
      md_deletedAt = 0, md_tempPath = Some (''/p/.trash/'' @ name), md_trashDir = []\<rparr>"






section \<open>Properties of the number arithmetic\<close>


lemma trim_0 [simp]: "trim 0 e = Num 0 0"
  by (subst trim.simps) simp



lemma bitLength_0 [simp]: "bitLength 0 = 0"
  by (subst bitLength.simps) simp


lemma roundHalfEven_0 [simp]: "roundHalfEven 0 s = 0"
  by (simp add: roundHalfEven_def)


lemma toNumber_0 [simp]: "toNumber 0 e = Num 0 0"
  by (simp add: toNumber_def)






lemma isqrt_0 [simp]: "isqrt 0 = 0"
  by (subst isqrt.simps) simp












section \<open>Properties of the hashes\<close>

lemma foldl_append_concat: "foldl (\<lambda>acc c. acc @ f c) a xs = a @ concat (map f xs)"
  by (induction xs arbitrary: a) auto

lemma hexToBinary_concat: "hexToBinary hex = concat (map hexCharBits hex)"
  unfolding hexToBinary_def hexCharBits_def by (simp add: foldl_append_concat)

lemma nibble_all: "\<forall>d \<in> set [0..<16]. padStart 4 (CHR ''0'') (toStringRadix 2 d) = nibbleBits d"
  by code_simp

lemma nibble_toString: "d < 16 \<Longrightarrow> padStart 4 (CHR ''0'') (toStringRadix 2 d) = nibbleBits d"
  using nibble_all by simp

lemma parseHexChar_lt16: "parseHexChar c = Some d \<Longrightarrow> d < 16"
  by (auto simp: parseHexChar_def Let_def split: if_splits)

lemma hexCharBits_Some: "parseHexChar c = Some d \<Longrightarrow> hexCharBits c = nibbleBits d"
  by (simp add: hexCharBits_def numToString_def nibble_toString parseHexChar_lt16)

lemma hexCharBits_None: "parseHexChar c = None \<Longrightarrow> hexCharBits c = ''0NaN''"
  by (simp add: hexCharBits_def numToString_def padStart_def)

lemma length_hexCharBits [simp]: "length (hexCharBits c) = 4"
  by (cases "parseHexChar c") (simp_all add: hexCharBits_Some hexCharBits_None nibbleBits_def)

lemma length_hexToBinary: "length (hexToBinary hex) = 4 * length hex"
  by (induction hex) (simp_all add: hexToBinary_concat)

lemma foldl_count:
  "foldl (\<lambda>distance i. if P i then distance + 1 else distance) (a::nat) js
     = a + length (filter P js)"
proof (induction js arbitrary: a)
  case Nil
  then show ?case by simp
next
  case (Cons j js)
  show ?case
  proof (cases "P j")
    case True
    then show ?thesis using Cons [of "a + 1"] by simp
  next
    case False
    then show ?thesis using Cons [of a] by simp
  qed
qed

lemma zip_as_map_nth:
  "length xs = length ys \<Longrightarrow> zip xs ys = map (\<lambda>i. (xs ! i, ys ! i)) [0..<length xs]"
  by (rule nth_equalityI) simp_all

lemma count_upt_diffCount:
  assumes "length xs = length ys"
  shows "length (filter (\<lambda>i. xs ! i \<noteq> ys ! i) [0..<length xs]) = diffCount xs ys"
proof -
  have "diffCount xs ys = length (filter (\<lambda>(a, b). a \<noteq> b) (map (\<lambda>i. (xs ! i, ys ! i)) [0..<length xs]))"
    by (simp add: diffCount_def zip_as_map_nth [OF assms])
  also have "\<dots> = length (filter (\<lambda>i. xs ! i \<noteq> ys ! i) [0..<length xs])"
    by (simp add: filter_map comp_def)
  finally show ?thesis by simp
qed

lemma hamming_equal_length:
  assumes "length a = length b"
  shows "calculateHammingDistance a b = enat (diffCount (hexToBinary a) (hexToBinary b))"
proof -
  have len: "length (hexToBinary a) = length (hexToBinary b)"
    using assms by (simp add: length_hexToBinary)
  show ?thesis
    using assms count_upt_diffCount [OF len]
    by (simp add: calculateHammingDistance_def Let_def foldl_count)
qed

lemma diffCount_le: "diffCount xs ys \<le> length xs"
proof -
  have "diffCount xs ys \<le> length (zip xs ys)"
    unfolding diffCount_def by (rule length_filter_le)
  then show ?thesis by simp
qed

lemma diffCount_sym: "diffCount xs ys = diffCount ys xs"
proof (induction xs arbitrary: ys)
  case Nil
  then show ?case by (simp add: diffCount_def)
next
  case (Cons x xs)
  then show ?case by (cases ys) (auto simp: diffCount_def)
qed

lemma diffCount_zero: "length xs = length ys \<Longrightarrow> diffCount xs ys = 0 \<longleftrightarrow> xs = ys"
  by (induction xs ys rule: list_induct2) (auto simp: diffCount_def)

lemma diffCount_card:
  assumes "length xs = length ys"
  shows "diffCount xs ys = card {i. i < length xs \<and> xs ! i \<noteq> ys ! i}"
proof -
  have "{i. i < length xs \<and> xs ! i \<noteq> ys ! i} = set (filter (\<lambda>i. xs ! i \<noteq> ys ! i) [0..<length xs])"
    by auto
  moreover have "distinct (filter (\<lambda>i. xs ! i \<noteq> ys ! i) [0..<length xs])"
    by simp
  ultimately have "card {i. i < length xs \<and> xs ! i \<noteq> ys ! i}
      = length (filter (\<lambda>i. xs ! i \<noteq> ys ! i) [0..<length xs])"
    using distinct_card by metis
  then show ?thesis by (simp add: count_upt_diffCount [OF assms])
qed

lemma parse_nibble_all: "\<forall>d \<in> set [0..<16]. parseBinary (nibbleBits d) = Some d"
  by code_simp

lemma parse_nibble: "d < 16 \<Longrightarrow> parseBinary (nibbleBits d) = Some d"
  using parse_nibble_all by simp

lemma lowerhex_all:
  "\<forall>c \<in> set ''0123456789abcdef''.
     parseHexChar c \<noteq> None \<and> c = digitChar (the (parseHexChar c))"
  by code_simp

lemma lowerhex_digit:
  "isLowerHex c \<Longrightarrow> \<exists>d. parseHexChar c = Some d \<and> c = digitChar d"
  using lowerhex_all unfolding isLowerHex_def by fastforce

lemma hexCharBits_inj:
  assumes "isLowerHex c" "isLowerHex d" "hexCharBits c = hexCharBits d"
  shows "c = d"
proof -
  obtain m where m: "parseHexChar c = Some m" "c = digitChar m"
    using lowerhex_digit [OF assms(1)] by blast
  obtain n where n: "parseHexChar d = Some n" "d = digitChar n"
    using lowerhex_digit [OF assms(2)] by blast
  have "nibbleBits m = nibbleBits n"
    using assms(3) m(1) n(1) by (simp add: hexCharBits_Some)
  then have "parseBinary (nibbleBits m) = parseBinary (nibbleBits n)"
    by simp
  then have "m = n"
    using m(1) n(1) by (simp add: parse_nibble parseHexChar_lt16)
  then show ?thesis using m(2) n(2) by simp
qed

lemma hexToBinary_inj:
  "length a = length b \<Longrightarrow> list_all isLowerHex a \<Longrightarrow> list_all isLowerHex b \<Longrightarrow>
   hexToBinary a = hexToBinary b \<Longrightarrow> a = b"
proof (induction a b rule: list_induct2)
  case Nil
  then show ?case by simp
next
  case (Cons x xs y ys)
  from Cons.prems have eq: "hexCharBits x @ hexToBinary xs = hexCharBits y @ hexToBinary ys"
    by (simp add: hexToBinary_concat)
  then have "hexCharBits x = hexCharBits y" "hexToBinary xs = hexToBinary ys"
    by simp_all
  with Cons show ?case by (auto dest: hexCharBits_inj)
qed

lemma digitChar_01: "digitChar 0 = CHR ''0''" "digitChar 1 = CHR ''1''"
  by code_simp+

lemma digitChar_mod2: "isBinaryDigit (digitChar (n mod 2))"
proof -
  have "n mod 2 = 0 \<or> n mod 2 = 1" by arith
  then show ?thesis using digitChar_01 by (auto simp: isBinaryDigit_def)
qed

lemma nibbleBits_binary: "list_all isBinaryDigit (nibbleBits d)"
  by (simp add: nibbleBits_def digitChar_mod2)

lemma hexToBinary_binary: "list_all isHexChar h \<Longrightarrow> list_all isBinaryDigit (hexToBinary h)"
  by (induction h) (auto simp: hexToBinary_concat isHexChar_def hexCharBits_Some nibbleBits_binary)

text \<open>
  Claim C4.  For two fingerprints of 16 hexadecimal characters, the Hamming distance is a
  number \<open>d\<close> between 0 and 64, the number of positions at which the two strings of 64
  bits differ, and \<open>calculateSimilarity\<close> returns \<open>100 * (64 - d) / 64\<close>.  The distance is
  symmetric.  It is 0 exactly when the two fingerprints have the same 64 bits, which for
  fingerprints in the lower-case digits that \<open>binaryToHex\<close> writes means that the two
  strings are equal.  A larger distance gives a strictly smaller similarity.
\<close>

theorem calculateSimilarity_formula:
  assumes "isFingerprint a" and "isFingerprint b"
  shows "(\<exists>d. calculateHammingDistance a b = enat d \<and> d \<le> 64
            \<and> d = card {i. i < 64 \<and> hexToBinary a ! i \<noteq> hexToBinary b ! i}
            \<and> calculateSimilarity a b = 100 * (64 - real d) / 64)
       \<and> list_all isBinaryDigit (hexToBinary a) \<and> length (hexToBinary a) = 64
       \<and> calculateHammingDistance a b = calculateHammingDistance b a
       \<and> (calculateHammingDistance a b = 0 \<longleftrightarrow> hexToBinary a = hexToBinary b)
       \<and> (list_all isLowerHex a \<and> list_all isLowerHex b \<longrightarrow>
            (calculateHammingDistance a b = 0 \<longleftrightarrow> a = b))
       \<and> (\<forall>c e. isFingerprint c \<and> isFingerprint e
              \<and> calculateHammingDistance a b < calculateHammingDistance c e
            \<longrightarrow> calculateSimilarity c e < calculateSimilarity a b)"
proof -
  have la: "length a = 16" and lb: "length b = 16"
    using assms by (simp_all add: isFingerprint_def)
  have lba: "length (hexToBinary a) = 64" and lbb: "length (hexToBinary b) = 64"
    by (simp_all add: length_hexToBinary la lb)
  define d where "d = diffCount (hexToBinary a) (hexToBinary b)"
  have hd: "calculateHammingDistance a b = enat d"
    unfolding d_def by (rule hamming_equal_length) (simp add: la lb)
  have dle: "d \<le> 64"
    unfolding d_def using diffCount_le [of "hexToBinary a" "hexToBinary b"] lba by simp
  have dcard: "d = card {i. i < 64 \<and> hexToBinary a ! i \<noteq> hexToBinary b ! i}"
    unfolding d_def using diffCount_card [of "hexToBinary a" "hexToBinary b"] lba lbb by simp
  have sim: "calculateSimilarity a b = 100 * (64 - real d) / 64"
    using dle by (simp add: calculateSimilarity_def hd)
  have bits: "list_all isBinaryDigit (hexToBinary a)"
    using assms(1) by (simp add: isFingerprint_def hexToBinary_binary)
  have sym: "calculateHammingDistance a b = calculateHammingDistance b a"
    using hamming_equal_length [of a b] hamming_equal_length [of b a] la lb
      diffCount_sym [of "hexToBinary a" "hexToBinary b"] by simp
  have zero: "calculateHammingDistance a b = 0 \<longleftrightarrow> hexToBinary a = hexToBinary b"
    using diffCount_zero [of "hexToBinary a" "hexToBinary b"] lba lbb
    by (simp add: hd d_def zero_enat_def)
  have zero': "list_all isLowerHex a \<and> list_all isLowerHex b \<longrightarrow>
      (calculateHammingDistance a b = 0 \<longleftrightarrow> a = b)"
    using zero hexToBinary_inj [of a b] la lb by auto
  have mono: "calculateSimilarity c e < calculateSimilarity a b"
    if "isFingerprint c" "isFingerprint e"
      "calculateHammingDistance a b < calculateHammingDistance c e" for c e
  proof -
    have lc: "length c = 16" and le: "length e = 16"
      using that by (simp_all add: isFingerprint_def)
    define d' where "d' = diffCount (hexToBinary c) (hexToBinary e)"
    have hd': "calculateHammingDistance c e = enat d'"
      unfolding d'_def by (rule hamming_equal_length) (simp add: lc le)
    have "d' \<le> 64"
      unfolding d'_def using diffCount_le [of "hexToBinary c" "hexToBinary e"]
      by (simp add: length_hexToBinary lc)
    moreover have "d < d'" using that(3) by (simp add: hd hd')
    ultimately show ?thesis
      using dle by (simp add: calculateSimilarity_def hd hd')
  qed
  show ?thesis
    using hd dle dcard sim bits lba sym zero zero' mono by blast
qed

lemma hexCharBits_0: "hexCharBits CHR ''0'' = ''0000''"
  by code_simp

lemma hexCharBits_f: "hexCharBits CHR ''f'' = ''1111''"
  by code_simp

text \<open>The fingerprints \<open>0000000000000000\<close> and \<open>ffff000000000000\<close>: distance 16, similarity 75.\<close>

theorem calculateSimilarity_formula_witness:
  "isFingerprint ''0000000000000000'' \<and> isFingerprint ''ffff000000000000''
   \<and> calculateHammingDistance ''0000000000000000'' ''ffff000000000000'' = enat 16
   \<and> calculateHammingDistance ''ffff000000000000'' ''0000000000000000'' = enat 16
   \<and> calculateSimilarity ''0000000000000000'' ''ffff000000000000'' = 75"
proof -
  have fa: "isFingerprint ''0000000000000000''"
    by (simp add: isFingerprint_def isHexChar_def parseHexChar_def)
  have fb: "isFingerprint ''ffff000000000000''"
    by (simp add: isFingerprint_def isHexChar_def parseHexChar_def)
  have d: "calculateHammingDistance ''0000000000000000'' ''ffff000000000000'' = enat 16"
    by (simp add: hamming_equal_length hexToBinary_concat hexCharBits_0 hexCharBits_f diffCount_def)
  show ?thesis
    using calculateSimilarity_formula [OF fa fb] fa fb d by auto
qed


section \<open>Properties of the clustering\<close>


lemma joins_insert:
  "x \<notin> fst ` set later \<Longrightarrow>
   filter (joins t seedHash (insert x processed)) later = filter (joins t seedHash processed) later"
  by (rule filter_cong) (auto simp: joins_def)

lemma innerLoop_filter:
  assumes "distinct (map fst later)" and "\<forall>x \<in> set later. get (fst x) = Some (snd x)"
  shows "innerLoop get t seedHash (map fst later) similarPhotos processed =
     (similarPhotos @ map fst (filter (joins t seedHash processed) later),
      processed \<union> fst ` set (filter (joins t seedHash processed) later))"
  using assms
proof (induction later arbitrary: similarPhotos processed)
  case Nil
  then show ?case by simp
next
  case (Cons p later)
  obtain x h where p: "p = (x, h)" by (cases p)
  have gx: "get x = Some h" using Cons.prems(2) p by simp
  have dl: "distinct (map fst later)" and xn: "x \<notin> fst ` set later"
    using Cons.prems(1) p by simp_all
  have gl: "\<forall>y \<in> set later. get (fst y) = Some (snd y)" using Cons.prems(2) by simp
  show ?case
  proof (cases "x \<in> processed")
    case True
    then have "\<not> joins t seedHash processed (x, h)" by (simp add: joins_def)
    then show ?thesis using Cons.IH [OF dl gl] p True by simp
  next
    case False
    show ?thesis
    proof (cases "calculateSimilarity (hash seedHash) (hash h) \<ge> t")
      case True
      then have j: "joins t seedHash processed (x, h)" using False by (simp add: joins_def)
      show ?thesis
        using Cons.IH [OF dl gl, of "similarPhotos @ [x]" "insert x processed"]
          False True p gx j joins_insert [OF xn, of t seedHash processed]
        by simp
    next
      case nomatch: False
      then have "\<not> joins t seedHash processed (x, h)" by (simp add: joins_def)
      then show ?thesis using Cons.IH [OF dl gl] False nomatch p gx by simp
    qed
  qed
qed

lemma outerLoop_clusterSpec:
  assumes "distinct (map fst later)" and "\<forall>x \<in> set later. get (fst x) = Some (snd x)"
  shows "outerLoop get t (map fst later) processed groups =
     groups @ clusterSpec t later processed (length groups)"
  using assms
proof (induction later arbitrary: processed groups)
  case Nil
  then show ?case by simp
next
  case (Cons p later)
  obtain x h where p: "p = (x, h)" by (cases p)
  have gx: "get x = Some h" using Cons.prems(2) p by simp
  have dl: "distinct (map fst later)"
    using Cons.prems(1) p by simp
  have gl: "\<forall>y \<in> set later. get (fst y) = Some (snd y)" using Cons.prems(2) by simp
  note inner = innerLoop_filter [OF dl gl, of t h "[x]" processed]
  show ?case
  proof (cases "x \<in> processed")
    case True
    then show ?thesis using Cons.IH [OF dl gl] p by simp
  next
    case False
    show ?thesis
    proof (cases "filter (joins t h processed) later = []")
      case True
      then show ?thesis
        using Cons.IH [OF dl gl] p gx inner False by simp
    next
      case nonempty: False
      have un: "processed \<union> fst ` set (filter (joins t h processed) later)
                  \<union> set ([x] @ map fst (filter (joins t h processed) later))
           = insert x processed \<union> fst ` set (filter (joins t h processed) later)"
        by auto
      show ?thesis
        using Cons.IH [OF dl gl] p gx inner False nonempty un by simp
    qed
  qed
qed

lemma map_of_distinct_lookup:
  "distinct (map fst xs) \<Longrightarrow> \<forall>x \<in> set xs. map_of xs (fst x) = Some (snd x)"
  by auto

lemma findDuplicateGroups_clusterSpec:
  "distinct (map fst imageHashes) \<Longrightarrow>
   findDuplicateGroups imageHashes t = clusterSpec t imageHashes {} 0"
  unfolding findDuplicateGroups_def
  using outerLoop_clusterSpec [of imageHashes "map_of imageHashes" t "{}" "[]"]
    map_of_distinct_lookup [of imageHashes]
  by simp

lemma clusterSpec_gids:
  "i < length (clusterSpec t later assigned n) \<Longrightarrow>
   gid (clusterSpec t later assigned n ! i) = ''dup_group_'' @ toStringRadix 10 (n + i + 1)"
proof (induction t later assigned n arbitrary: i rule: clusterSpec.induct)
  case (1 t assigned n)
  then show ?case by simp
next
  case (2 t seed seedHash later assigned n)
  show ?case
  proof (cases "seed \<in> assigned")
    case True
    then show ?thesis using 2(1) [OF True, of i] 2(4) by simp
  next
    case False
    show ?thesis
    proof (cases "filter (joins t seedHash assigned) later = []")
      case True
      then show ?thesis using 2(2) [OF False True, of i] 2(4) False by simp
    next
      case nonempty: False
      define rest where "rest = clusterSpec t later
        (insert seed assigned \<union> fst ` set (filter (joins t seedHash assigned) later)) (n + 1)"
      have IH: "j < length rest \<Longrightarrow>
          gid (rest ! j) = ''dup_group_'' @ toStringRadix 10 (n + 1 + j + 1)" for j
        unfolding rest_def by (rule 2(3) [OF False nonempty])
      have unfold: "clusterSpec t ((seed, seedHash) # later) assigned n =
          \<lparr>gid = ''dup_group_'' @ toStringRadix 10 (n + 1),
           photos = seed # map fst (filter (joins t seedHash assigned) later),
           similarity = t\<rparr> # rest"
        unfolding rest_def using False nonempty by simp
      show ?thesis
      proof (cases i)
        case 0
        then show ?thesis unfolding unfold by simp
      next
        case (Suc j)
        then have "j < length rest" using 2(4) unfolding unfold by simp
        from IH [OF this] show ?thesis unfolding unfold using Suc by simp
      qed
    qed
  qed
qed

lemma clusterSpec_group:
  "g \<in> set (clusterSpec t later assigned n) \<Longrightarrow>
   \<exists>seed seedHash joiners.
     (seed, seedHash) \<in> set later \<and> photos g = seed # map fst joiners \<and> joiners \<noteq> []
     \<and> set joiners \<subseteq> set later \<and> similarity g = t
     \<and> (\<forall>x \<in> set joiners. calculateSimilarity (hash seedHash) (hash (snd x)) \<ge> t)"
proof (induction t later assigned n rule: clusterSpec.induct)
  case (1 t assigned n)
  then show ?case by simp
next
  case (2 t seed seedHash later assigned n)
  show ?case
  proof (cases "seed \<in> assigned")
    case True
    then have "g \<in> set (clusterSpec t later assigned n)" using 2(4) by simp
    from 2(1) [OF True this] show ?thesis by (simp; blast)
  next
    case False
    show ?thesis
    proof (cases "filter (joins t seedHash assigned) later = []")
      case True
      then have "g \<in> set (clusterSpec t later (insert seed assigned) n)"
        using 2(4) False by simp
      from 2(2) [OF False True this] show ?thesis by (simp; blast)
    next
      case nonempty: False
      let ?js = "filter (joins t seedHash assigned) later"
      from 2(4) False nonempty
      consider (new) "g = \<lparr>gid = ''dup_group_'' @ toStringRadix 10 (n + 1),
                         photos = seed # map fst ?js, similarity = t\<rparr>"
        | (old) "g \<in> set (clusterSpec t later (insert seed assigned \<union> fst ` set ?js) (n + 1))"
        by auto
      then show ?thesis
      proof cases
        case new
        have "\<forall>x \<in> set ?js. calculateSimilarity (hash seedHash) (hash (snd x)) \<ge> t"
          by (simp add: joins_def)
        moreover have "set ?js \<subseteq> set later" by auto
        ultimately show ?thesis using new nonempty
          by (intro exI [of _ seed] exI [of _ seedHash] exI [of _ ?js]) auto
      next
        case old
        from 2(3) [OF False nonempty old] show ?thesis by (simp; blast)
      qed
    qed
  qed
qed

lemma joins_mono: "t1 \<le> t2 \<Longrightarrow> joins t2 seedHash assigned x \<Longrightarrow> joins t1 seedHash assigned x"
  by (simp add: joins_def)

lemma filter_joins_mono:
  assumes "t1 \<le> t2"
  shows "filter (joins t2 seedHash assigned) later
       = filter (joins t2 seedHash assigned) (filter (joins t1 seedHash assigned) later)"
  using joins_mono [OF assms] by (auto intro: filter_cong)

lemma clusterSpec_none_mono:
  "t1 \<le> t2 \<Longrightarrow> clusterSpec t1 later assigned n = [] \<Longrightarrow> clusterSpec t2 later assigned m = []"
proof (induction later arbitrary: assigned)
  case Nil
  then show ?case by simp
next
  case (Cons p later)
  obtain x h where p: "p = (x, h)" by (cases p)
  show ?case
  proof (cases "x \<in> assigned")
    case True
    then show ?thesis using Cons p by simp
  next
    case False
    have e1: "filter (joins t1 h assigned) later = []"
      using Cons.prems(2) p False by (auto split: if_splits)
    then have e2: "filter (joins t2 h assigned) later = []"
      using filter_joins_mono [OF Cons.prems(1), of h assigned later] by simp
    have "clusterSpec t1 later (insert x assigned) n = []"
      using Cons.prems(2) p False e1 by simp
    from Cons.IH [OF Cons.prems(1) this] show ?thesis
      using p False e2 by simp
  qed
qed

lemma diffCount_same: "diffCount xs xs = 0"
  by (induction xs) (simp_all add: diffCount_def)

lemma similarity_same: "calculateSimilarity a a = 100"
  by (simp add: calculateSimilarity_def hamming_equal_length diffCount_same)

lemma similarity_0_f: "calculateSimilarity ''0000000000000000'' ''ffff000000000000'' = 75"
  by (simp add: calculateSimilarity_def hamming_equal_length hexToBinary_concat
      hexCharBits_0 hexCharBits_f diffCount_def)

lemma similarity_unequal_length: "length a \<noteq> length b \<Longrightarrow> calculateSimilarity a b = 0"
  by (simp add: calculateSimilarity_def calculateHammingDistance_def)

lemma similarity_pos_length: "0 < calculateSimilarity a b \<Longrightarrow> length a = length b"
  using similarity_unequal_length [of a b] by auto

lemma toStringRadix_digit: "n < 10 \<Longrightarrow> toStringRadix 10 n = [digitChar n]"
  by (subst toStringRadix.simps) simp

lemma digitChar_1_2:
  "digitChar (Suc 0) = CHR ''1''" "digitChar (Suc (Suc 0)) = CHR ''2''"
  by code_simp+

lemma fourPhotos_85:
  "clusterSpec 85 fourPhotos {} 0 =
     [\<lparr>gid = ''dup_group_1'', photos = [''A'', ''B''], similarity = 85\<rparr>,
      \<lparr>gid = ''dup_group_2'', photos = [''C'', ''D''], similarity = 85\<rparr>]"
  by (simp add: fourPhotos_def joins_def similarity_same similarity_0_f toStringRadix_digit
      digitChar_1_2)

lemma fourPhotos_75:
  "clusterSpec 75 fourPhotos {} 0 =
     [\<lparr>gid = ''dup_group_1'', photos = [''A'', ''B'', ''C'', ''D''], similarity = 75\<rparr>]"
  by (simp add: fourPhotos_def joins_def similarity_same similarity_0_f toStringRadix_digit
      digitChar_1_2)

lemma mixedPhotos_0:
  "clusterSpec 0 mixedPhotos {} 0 =
     [\<lparr>gid = ''dup_group_1'', photos = [''A'', ''B''], similarity = 0\<rparr>]"
  by (simp add: mixedPhotos_def joins_def similarity_unequal_length toStringRadix_digit
      digitChar_1_2)

lemma mixedPhotos_85: "clusterSpec 85 mixedPhotos {} 0 = []"
  by (simp add: mixedPhotos_def joins_def similarity_unequal_length)

lemma distinct_fourPhotos: "distinct (map fst fourPhotos)"
  by (simp add: fourPhotos_def)

lemma distinct_mixedPhotos: "distinct (map fst mixedPhotos)"
  by (simp add: mixedPhotos_def)

text \<open>
  Claim C1.  On a fingerprint map (distinct keys, in insertion order) \<open>findDuplicateGroups\<close>
  computes exactly the clustering policy \<open>clusterSpec\<close>: ids are visited in insertion
  order; an id not yet assigned becomes a seed, and every later id not yet assigned whose
  similarity to the seed (and to the seed only) meets the threshold joins its group and is
  marked assigned; the group is emitted, with the next number \<open>dup_group_1\<close>,
  \<open>dup_group_2\<close>, ..., exactly when somebody joined, and otherwise the seed is only marked.
  So every emitted group has more than one member, carries the threshold, and each member
  after the first meets the threshold against the first.
\<close>

theorem findDuplicateGroups_policy:
  assumes "distinct (map fst imageHashes)"
  shows "findDuplicateGroups imageHashes t = clusterSpec t imageHashes {} 0
     \<and> (\<forall>i < length (findDuplicateGroups imageHashes t).
          gid (findDuplicateGroups imageHashes t ! i) = ''dup_group_'' @ toStringRadix 10 (i + 1))
     \<and> (\<forall>g \<in> set (findDuplicateGroups imageHashes t).
          length (photos g) > 1 \<and> similarity g = t
          \<and> (\<exists>seedHash. (hd (photos g), seedHash) \<in> set imageHashes
                \<and> (\<forall>x \<in> set (tl (photos g)). \<exists>h. (x, h) \<in> set imageHashes
                      \<and> calculateSimilarity (hash seedHash) (hash h) \<ge> t)))"
proof -
  have eq: "findDuplicateGroups imageHashes t = clusterSpec t imageHashes {} 0"
    by (rule findDuplicateGroups_clusterSpec [OF assms])
  have ids: "\<forall>i < length (findDuplicateGroups imageHashes t).
      gid (findDuplicateGroups imageHashes t ! i) = ''dup_group_'' @ toStringRadix 10 (i + 1)"
    unfolding eq using clusterSpec_gids [of _ t imageHashes "{}" 0] by simp
  have groups: "length (photos g) > 1 \<and> similarity g = t
          \<and> (\<exists>seedHash. (hd (photos g), seedHash) \<in> set imageHashes
                \<and> (\<forall>x \<in> set (tl (photos g)). \<exists>h. (x, h) \<in> set imageHashes
                      \<and> calculateSimilarity (hash seedHash) (hash h) \<ge> t))"
    if "g \<in> set (findDuplicateGroups imageHashes t)" for g
  proof -
    from that obtain seed seedHash joiners where
      s: "(seed, seedHash) \<in> set imageHashes" and p: "photos g = seed # map fst joiners"
      and n: "joiners \<noteq> []" and j: "set joiners \<subseteq> set imageHashes" and st: "similarity g = t"
      and sim: "\<forall>x \<in> set joiners. calculateSimilarity (hash seedHash) (hash (snd x)) \<ge> t"
      unfolding eq using clusterSpec_group [of g t imageHashes "{}" 0] by blast
    have "length (photos g) > 1" using p n by (cases joiners) simp_all
    moreover have "\<exists>h. (x, h) \<in> set imageHashes
        \<and> calculateSimilarity (hash seedHash) (hash h) \<ge> t"
      if "x \<in> set (tl (photos g))" for x
    proof -
      from that p obtain q where q: "q \<in> set joiners" "x = fst q" by auto
      then have "(x, snd q) \<in> set imageHashes" using j by auto
      then show ?thesis using sim q(1) by blast
    qed
    ultimately show ?thesis using s p st by auto
  qed
  show ?thesis using eq ids groups by blast
qed

text \<open>
  The four photos at threshold 85: \<open>A\<close> gathers \<open>B\<close>, then \<open>C\<close> gathers \<open>D\<close>.
\<close>

theorem findDuplicateGroups_policy_witness:
  "distinct (map fst fourPhotos)
   \<and> findDuplicateGroups fourPhotos 85 =
       [\<lparr>gid = ''dup_group_1'', photos = [''A'', ''B''], similarity = 85\<rparr>,
        \<lparr>gid = ''dup_group_2'', photos = [''C'', ''D''], similarity = 85\<rparr>]"
  using findDuplicateGroups_policy [OF distinct_fourPhotos, of 85]
  by (simp add: distinct_fourPhotos fourPhotos_85)

text \<open>
  Claim C2 as stated fails: the four photos form one group at threshold 75 and two groups
  at threshold 85, so raising the threshold has increased the number of groups.
\<close>

theorem threshold_groups_counterexample:
  "(75::real) \<le> 85
   \<and> length (findDuplicateGroups fourPhotos 75) = 1
   \<and> length (findDuplicateGroups fourPhotos 85) = 2
   \<and> \<not> length (findDuplicateGroups fourPhotos 85) \<le> length (findDuplicateGroups fourPhotos 75)"
  by (simp add: findDuplicateGroups_clusterSpec [OF distinct_fourPhotos] fourPhotos_85
      fourPhotos_75)

text \<open>
  Claim C2, amended.  For thresholds \<open>t1 \<le> t2\<close> and any seed of the map, with the same
  set of ids already assigned, the ids that the inner loop gathers for the seed at \<open>t2\<close>
  are among those it gathers at \<open>t1\<close>, and they are no more (fewer or equal matches
  qualify); and when no group at all is found at \<open>t1\<close>, none is found at \<open>t2\<close>.
\<close>

theorem threshold_monotone_matches:
  assumes "t1 \<le> t2" and "distinct (map fst imageHashes)"
    and "imageHashes = earlier @ (seed, seedHash) # later"
  shows "set (fst (innerLoop (map_of imageHashes) t2 seedHash (map fst later) [seed] processed))
           \<subseteq> set (fst (innerLoop (map_of imageHashes) t1 seedHash (map fst later) [seed] processed))
     \<and> length (fst (innerLoop (map_of imageHashes) t2 seedHash (map fst later) [seed] processed))
           \<le> length (fst (innerLoop (map_of imageHashes) t1 seedHash (map fst later) [seed] processed))
     \<and> (findDuplicateGroups imageHashes t1 = [] \<longrightarrow> findDuplicateGroups imageHashes t2 = [])"
proof -
  have dl: "distinct (map fst later)" using assms(2,3) by simp
  have gl: "\<forall>x \<in> set later. map_of imageHashes (fst x) = Some (snd x)"
    using map_of_distinct_lookup [OF assms(2)] assms(3) by simp
  note i1 = innerLoop_filter [OF dl gl, of t1 seedHash "[seed]" processed]
  note i2 = innerLoop_filter [OF dl gl, of t2 seedHash "[seed]" processed]
  let ?f1 = "filter (joins t1 seedHash processed) later"
  let ?f2 = "filter (joins t2 seedHash processed) later"
  have f: "?f2 = filter (joins t2 seedHash processed) ?f1"
    by (rule filter_joins_mono [OF assms(1)])
  have "set ?f2 \<subseteq> set ?f1" by (subst f) auto
  moreover have "length ?f2 \<le> length ?f1" by (subst f) (rule length_filter_le)
  moreover have "findDuplicateGroups imageHashes t1 = [] \<longrightarrow> findDuplicateGroups imageHashes t2 = []"
    unfolding findDuplicateGroups_clusterSpec [OF assms(2)]
    using clusterSpec_none_mono [OF assms(1)] by blast
  ultimately show ?thesis unfolding i1 i2 by auto
qed

text \<open>
  The four photos with seed \<open>A\<close>, thresholds 75 and 85.
\<close>

theorem threshold_monotone_matches_witness:
  "(75::real) \<le> 85 \<and> distinct (map fst fourPhotos)
   \<and> fourPhotos = [] @ (''A'', \<lparr>hash = ''0000000000000000'', imageWidth = 9, imageHeight = 8\<rparr>) # tl fourPhotos
   \<and> length (fst (innerLoop (map_of fourPhotos) 85 \<lparr>hash = ''0000000000000000'', imageWidth = 9, imageHeight = 8\<rparr>
         (map fst (tl fourPhotos)) [''A''] {}))
       \<le> length (fst (innerLoop (map_of fourPhotos) 75 \<lparr>hash = ''0000000000000000'', imageWidth = 9, imageHeight = 8\<rparr>
         (map fst (tl fourPhotos)) [''A''] {}))"
proof -
  have le: "(75::real) \<le> 85" by simp
  have dec: "fourPhotos = [] @ (''A'', \<lparr>hash = ''0000000000000000'', imageWidth = 9, imageHeight = 8\<rparr>) # tl fourPhotos"
    by (simp add: fourPhotos_def)
  show ?thesis
    using threshold_monotone_matches [OF le distinct_fourPhotos dec, of "{}"] le
      distinct_fourPhotos dec by blast
qed

text \<open>
  Claim C10, amended.  For two hash strings of unequal length \<open>calculateHammingDistance\<close>
  returns \<open>Infinity\<close> and \<open>calculateSimilarity\<close> returns 0; and for every threshold greater
  than 0, two photos whose hashes have unequal lengths are never members of the same
  duplicate group.
\<close>

theorem unequal_length_never_similar:
  assumes "length a \<noteq> length b"
  shows "calculateHammingDistance a b = \<infinity> \<and> calculateSimilarity a b = 0
     \<and> (\<forall>imageHashes t g x y hx hy.
          distinct (map fst imageHashes) \<and> 0 < t
          \<and> g \<in> set (findDuplicateGroups imageHashes t)
          \<and> (x, hx) \<in> set imageHashes \<and> (y, hy) \<in> set imageHashes
          \<and> hash hx = a \<and> hash hy = b
          \<longrightarrow> \<not> (x \<in> set (photos g) \<and> y \<in> set (photos g)))"
proof -
  have inf: "calculateHammingDistance a b = \<infinity>"
    using assms by (simp add: calculateHammingDistance_def)
  have zero: "calculateSimilarity a b = 0"
    by (rule similarity_unequal_length [OF assms])
  have never: "\<not> (x \<in> set (photos g) \<and> y \<in> set (photos g))"
    if d: "distinct (map fst imageHashes)" and t: "0 < t"
      and g: "g \<in> set (findDuplicateGroups imageHashes t)"
      and x: "(x, hx) \<in> set imageHashes" and y: "(y, hy) \<in> set imageHashes"
      and a: "hash hx = a" and b: "hash hy = b"
    for imageHashes t g x y hx hy
  proof
    assume both: "x \<in> set (photos g) \<and> y \<in> set (photos g)"
    from g obtain seed seedHash joiners where
      s: "(seed, seedHash) \<in> set imageHashes" and p: "photos g = seed # map fst joiners"
      and j: "set joiners \<subseteq> set imageHashes"
      and sim: "\<forall>z \<in> set joiners. calculateSimilarity (hash seedHash) (hash (snd z)) \<ge> t"
      unfolding findDuplicateGroups_clusterSpec [OF d]
      using clusterSpec_group [of g t imageHashes "{}" 0] by blast
    have same: "length (hash h) = length (hash seedHash)"
      if "z \<in> set (photos g)" "(z, h) \<in> set imageHashes" for z h
    proof (cases "z = seed")
      case True
      then have "h = seedHash" using eq_key_imp_eq_value [OF d that(2)] s by simp
      then show ?thesis by simp
    next
      case False
      then have "z \<in> fst ` set joiners" using that(1) p by simp
      then obtain q where q: "q \<in> set joiners" "fst q = z" by force
      then have "(z, snd q) \<in> set imageHashes" using j by auto
      then have "h = snd q" using eq_key_imp_eq_value [OF d that(2)] by simp
      then have "0 < calculateSimilarity (hash seedHash) (hash h)"
        using sim q(1) t by force
      then show ?thesis using similarity_pos_length by fastforce
    qed
    have "length a = length b"
      using same [of x hx] same [of y hy] both x y a b by simp
    then show False using assms by simp
  qed
  show ?thesis using inf zero never by blast
qed

text \<open>
  A 16-character fingerprint and a 32-character checksum at threshold 85: no group.
\<close>

theorem unequal_length_never_similar_witness:
  "length ''0000000000000000'' \<noteq> length ''d41d8cd98f00b204e9800998ecf8427e''
   \<and> calculateHammingDistance ''0000000000000000'' ''d41d8cd98f00b204e9800998ecf8427e'' = \<infinity>
   \<and> calculateSimilarity ''0000000000000000'' ''d41d8cd98f00b204e9800998ecf8427e'' = 0
   \<and> findDuplicateGroups mixedPhotos 85 = []"
proof -
  have ne: "length ''0000000000000000'' \<noteq> length ''d41d8cd98f00b204e9800998ecf8427e''"
    by simp
  show ?thesis
    using unequal_length_never_similar [OF ne] ne
    by (simp add: findDuplicateGroups_clusterSpec [OF distinct_mixedPhotos] mixedPhotos_85)
qed

text \<open>
  Claim C10 as stated fails at threshold 0: the similarity 0 of the two hashes of unequal
  length meets the threshold, and the two photos are put in one duplicate group.
\<close>

theorem unequal_length_clustered_counterexample:
  "length ''0000000000000000'' \<noteq> length ''d41d8cd98f00b204e9800998ecf8427e''
   \<and> findDuplicateGroups mixedPhotos 0 =
       [\<lparr>gid = ''dup_group_1'', photos = [''A'', ''B''], similarity = 0\<rparr>]"
  by (simp add: findDuplicateGroups_clusterSpec [OF distinct_mixedPhotos] mixedPhotos_0)


section \<open>Properties of calculateImageHash\<close>


lemma nth_skip4: "(r # g # b # a # rest) ! (4 * Suc j + k) = rest ! (4 * j + k)"
proof -
  have "4 * Suc j + k = Suc (Suc (Suc (Suc (4 * j + k))))" by simp
  then show ?thesis by (simp only: nth_Cons_Suc)
qed

lemma four_at_least:
  assumes "length pixels = 4 * Suc n"
  obtains r g b a rest where "pixels = r # g # b # a # rest" "length rest = 4 * n"
proof -
  from assms obtain r p1 where 1: "pixels = r # p1" by (cases pixels) auto
  with assms obtain g p2 where 2: "p1 = g # p2" by (cases p1) auto
  with 1 assms obtain b p3 where 3: "p2 = b # p3" by (cases p2) auto
  with 1 2 assms obtain a rest where 4: "p3 = a # rest" by (cases p3) auto
  show ?thesis using that [of r g b a rest] 1 2 3 4 assms by simp
qed

lemma length_grayPixels: "length pixels = 4 * n \<Longrightarrow> length (grayPixels pixels) = n"
proof (induction n arbitrary: pixels)
  case 0
  then show ?case by simp
next
  case (Suc n)
  from Suc.prems obtain r g b a rest where px: "pixels = r # g # b # a # rest"
    and len: "length rest = 4 * n" by (rule four_at_least)
  show ?case unfolding px using Suc.IH [OF len] by simp
qed

lemma nth_grayPixels:
  "length pixels = 4 * n \<Longrightarrow> i < n \<Longrightarrow>
   grayPixels pixels ! i =
     grayValue (ofByte (pixels ! (4 * i))) (ofByte (pixels ! (4 * i + 1)))
       (ofByte (pixels ! (4 * i + 2)))"
proof (induction n arbitrary: pixels i)
  case 0
  then show ?case by simp
next
  case (Suc n)
  from Suc.prems(1) obtain r g b a rest where px: "pixels = r # g # b # a # rest"
    and len: "length rest = 4 * n" by (rule four_at_least)
  show ?case
  proof (cases i)
    case 0
    then show ?thesis unfolding px by simp
  next
    case (Suc j)
    then have j: "j < n" using Suc.prems(2) by simp
    have "grayPixels pixels ! i = grayPixels rest ! j"
      unfolding px Suc by simp
    also have "\<dots> = grayValue (ofByte (rest ! (4 * j))) (ofByte (rest ! (4 * j + 1)))
        (ofByte (rest ! (4 * j + 2)))"
      by (rule Suc.IH [OF len j])
    also have "\<dots> = grayValue (ofByte (pixels ! (4 * i))) (ofByte (pixels ! (4 * i + 1)))
        (ofByte (pixels ! (4 * i + 2)))"
      unfolding px Suc using nth_skip4 [of r g b a rest j 0] nth_skip4 [of r g b a rest j 1]
        nth_skip4 [of r g b a rest j 2] by simp
    finally show ?thesis .
  qed
qed

lemma foldl_snoc_map: "foldl (\<lambda>acc x. acc @ [f x]) a xs = a @ map f xs"
  by (induction xs arbitrary: a) auto

lemma foldl_append_concat2: "foldl (\<lambda>acc x. acc @ f x) a xs = a @ concat (map f xs)"
  by (induction xs arbitrary: a) auto

lemma dHashBits_rows:
  "dHashBits gs = concat (map (\<lambda>row. map (codeBit gs row) [0..<8]) [0..<8])"
proof -
  have inner: "(\<lambda>hash col. let pixelIndex = row * (hashSize + 1) + col;
             rightPixelIndex = pixelIndex + 1
         in if grayLess gs pixelIndex rightPixelIndex then hash @ ''1'' else hash @ ''0'')
      = (\<lambda>hash col. hash @ [codeBit gs row col])" for row
    by (intro ext) (simp add: Let_def codeBit_def hashSize_def)
  have "dHashBits gs = foldl (\<lambda>hash row. hash @ map (codeBit gs row) [0..<hashSize]) [] [0..<hashSize]"
    unfolding dHashBits_def inner foldl_snoc_map ..
  then show ?thesis
    by (simp only: foldl_append_concat2 hashSize_def append_Nil)
qed

lemma length_concat_rows:
  "length (concat (map (\<lambda>r. map (f r) [0..<n]) [0..<m])) = m * n"
  by (induction m) simp_all

lemma nth_concat_rows:
  "row < m \<Longrightarrow> col < n \<Longrightarrow>
   concat (map (\<lambda>r. map (f r) [0..<n]) [0..<m]) ! (row * n + col) = f row col"
proof (induction m)
  case 0
  then show ?case by simp
next
  case (Suc m)
  let ?first = "concat (map (\<lambda>r. map (f r) [0..<n]) [0..<m])"
  have split: "concat (map (\<lambda>r. map (f r) [0..<n]) [0..<Suc m]) = ?first @ map (f m) [0..<n]"
    by simp
  have len: "length ?first = m * n" by (rule length_concat_rows)
  show ?case
  proof (cases "row < m")
    case True
    have "row * n + col < Suc row * n" using Suc.prems(2) by simp
    also have "\<dots> \<le> m * n" using True by (intro mult_le_mono1) simp
    finally have "row * n + col < length ?first" using len by simp
    then show ?thesis unfolding split using Suc.IH [OF True Suc.prems(2)]
      by (simp add: nth_append)
  next
    case False
    then have "row = m" using Suc.prems(1) by simp
    then show ?thesis unfolding split using Suc.prems(2) len by (simp add: nth_append)
  qed
qed

lemma four_bits_all:
  "\<forall>a \<in> set ''01''. \<forall>b \<in> set ''01''. \<forall>c \<in> set ''01''. \<forall>d \<in> set ''01''.
     parseBinary [a, b, c, d] \<noteq> None \<and> the (parseBinary [a, b, c, d]) < 16
     \<and> nibbleBits (the (parseBinary [a, b, c, d])) = [a, b, c, d]"
  by code_simp

lemma four_bits:
  assumes "isBinaryDigit a" "isBinaryDigit b" "isBinaryDigit c" "isBinaryDigit d"
  obtains v where "parseBinary [a, b, c, d] = Some v" "v < 16" "nibbleBits v = [a, b, c, d]"
proof -
  have "a \<in> set ''01''" "b \<in> set ''01''" "c \<in> set ''01''" "d \<in> set ''01''"
    using assms by (auto simp: isBinaryDigit_def)
  then have "parseBinary [a, b, c, d] \<noteq> None \<and> the (parseBinary [a, b, c, d]) < 16
     \<and> nibbleBits (the (parseBinary [a, b, c, d])) = [a, b, c, d]"
    using four_bits_all by blast
  then show ?thesis using that [of "the (parseBinary [a, b, c, d])"] by auto
qed

lemma hex_digits_all:
  "\<forall>v \<in> set [0..<16]. isLowerHex (digitChar v) \<and> parseHexChar (digitChar v) = Some v"
  by code_simp

lemma hex_digit: "v < 16 \<Longrightarrow> isLowerHex (digitChar v) \<and> parseHexChar (digitChar v) = Some v"
  using hex_digits_all by simp

lemma toStringRadix_16: "v < 16 \<Longrightarrow> toStringRadix 16 v = [digitChar v]"
  by (subst toStringRadix.simps) simp

lemma binaryToHex_Nil: "binaryToHex [] = []"
  by (subst binaryToHex.simps) simp

lemma binaryToHex_four:
  "binaryToHex (a # b # c # d # rest) =
     numToString 16 (parseBinary [a, b, c, d]) @ binaryToHex rest"
  by (subst binaryToHex.simps) simp

lemma hexToBinary_Cons: "hexToBinary (c # hex) = hexCharBits c @ hexToBinary hex"
  by (simp add: hexToBinary_concat)

lemma binaryToHex_encodes:
  "list_all isBinaryDigit bs \<Longrightarrow> length bs = 4 * k \<Longrightarrow>
   length (binaryToHex bs) = k \<and> list_all isLowerHex (binaryToHex bs)
   \<and> hexToBinary (binaryToHex bs) = bs
   \<and> (\<forall>j < k. \<exists>v < 16. binaryToHex bs ! j = digitChar v
          \<and> nibbleBits v = take 4 (drop (4 * j) bs))"
proof (induction k arbitrary: bs)
  case 0
  then show ?case by (simp add: binaryToHex_Nil hexToBinary_concat)
next
  case (Suc k)
  from Suc.prems(2) obtain a b c d rest where bs: "bs = a # b # c # d # rest"
    and len: "length rest = 4 * k" by (rule four_at_least)
  have bin: "isBinaryDigit a" "isBinaryDigit b" "isBinaryDigit c" "isBinaryDigit d"
    and binrest: "list_all isBinaryDigit rest"
    using Suc.prems(1) bs by simp_all
  from bin obtain v where v: "parseBinary [a, b, c, d] = Some v" "v < 16"
    "nibbleBits v = [a, b, c, d]" by (rule four_bits)
  have hex: "binaryToHex bs = digitChar v # binaryToHex rest"
    unfolding bs binaryToHex_four by (simp add: v numToString_def toStringRadix_16)
  note IH = Suc.IH [OF binrest len]
  have bits: "hexCharBits (digitChar v) = [a, b, c, d]"
    using hex_digit [OF v(2)] v(3) by (simp add: hexCharBits_Some)
  have chars: "\<exists>w < 16. binaryToHex bs ! j = digitChar w
          \<and> nibbleBits w = take 4 (drop (4 * j) bs)" if "j < Suc k" for j
  proof (cases j)
    case 0
    then show ?thesis using v hex bs by auto
  next
    case (Suc i)
    then have "i < k" using that by simp
    with IH obtain w where "w < 16" "binaryToHex rest ! i = digitChar w"
      "nibbleBits w = take 4 (drop (4 * i) rest)" by blast
    moreover have "4 * j = Suc (Suc (Suc (Suc (4 * i))))" using Suc by simp
    then have "drop (4 * j) bs = drop (4 * i) rest"
      unfolding bs by (simp only: drop_Suc_Cons)
    ultimately show ?thesis using hex Suc by auto
  qed
  show ?case
    using IH hex bits hex_digit [OF v(2)] chars bs
    by (simp add: hexToBinary_Cons)
qed

lemma codeBit_specBit:
  assumes "length pixels = 4 * 72" "row < 8" "col < 8"
  shows "codeBit (grayPixels pixels) row col = specBit pixels row col"
proof -
  have i: "row * 9 + col < 72" and j: "row * 9 + col + 1 < 72"
    using assms(2,3) by simp_all
  have li: "grayPixels pixels ! (row * 9 + col) = grayAt pixels row col"
    using nth_grayPixels [OF assms(1) i] by (simp add: grayAt_def)
  have lj: "grayPixels pixels ! (row * 9 + col + 1) = grayAt pixels row (col + 1)"
    using nth_grayPixels [OF assms(1) j] by (simp add: grayAt_def add.assoc)
  have len: "length (grayPixels pixels) = 72"
    by (rule length_grayPixels [OF assms(1)])
  show ?thesis
    unfolding codeBit_def specBit_def grayLess_def li lj len using i j by simp
qed

lemma dHashBits_specBit:
  assumes "length pixels = 4 * 72"
  shows "dHashBits (grayPixels pixels)
     = concat (map (\<lambda>row. map (specBit pixels row) [0..<8]) [0..<8])"
proof -
  have "map (\<lambda>row. map (codeBit (grayPixels pixels) row) [0..<8]) [0..<8]
      = map (\<lambda>row. map (specBit pixels row) [0..<8]) [0..<8]"
    by (intro map_cong refl) (simp add: codeBit_specBit [OF assms])
  then show ?thesis unfolding dHashBits_rows by (rule arg_cong)
qed

lemma specBit_binary: "isBinaryDigit (specBit pixels row col)"
  by (simp add: specBit_def isBinaryDigit_def)

text \<open>
  Claim C3, amended.  For the pixel data of a 9-by-8 grid (288 bytes) the hash that
  \<open>calculateImageHash\<close> produces has exactly 16 characters, all lower-case hexadecimal
  digits; decoded by \<open>hexToBinary\<close> it is the row-major string of 64 bits whose bit
  \<open>(row, col)\<close> is \<open>1\<close> exactly when the gray value at column \<open>col\<close> is strictly less than
  the gray value at column \<open>col + 1\<close> of the same row; and its character \<open>k\<close> is the digit
  whose four bits, most significant first, are the bits \<open>4 * k\<close> to \<open>4 * k + 3\<close> of that
  string.  The gray value of a pixel is \<open>Math.round(0.299 * R + 0.587 * G + 0.114 * B)\<close> as
  double arithmetic evaluates it, with every product and sum rounded to the nearest
  double.
\<close>

theorem calculateImageHash_dHash:
  assumes "length pixels = 4 * (9 * 8)"
  shows "length (hash (calculateImageHash pixels naturalWidth naturalHeight)) = 16
     \<and> list_all isLowerHex (hash (calculateImageHash pixels naturalWidth naturalHeight))
     \<and> hexToBinary (hash (calculateImageHash pixels naturalWidth naturalHeight))
         = concat (map (\<lambda>row. map (specBit pixels row) [0..<8]) [0..<8])
     \<and> (\<forall>row < 8. \<forall>col < 8.
           hexToBinary (hash (calculateImageHash pixels naturalWidth naturalHeight))
             ! (row * 8 + col)
           = (if numLess (grayAt pixels row col) (grayAt pixels row (col + 1))
              then CHR ''1'' else CHR ''0''))
     \<and> (\<forall>k < 16. \<exists>v < 16.
           hash (calculateImageHash pixels naturalWidth naturalHeight) ! k = digitChar v
           \<and> (\<forall>i < 4. nibbleBits v ! i = specBit pixels (k div 2) (4 * (k mod 2) + i)))"
proof -
  let ?bits = "concat (map (\<lambda>row. map (specBit pixels row) [0..<8]) [0..<8])"
  have px: "length pixels = 4 * 72" using assms by simp
  have h: "hash (calculateImageHash pixels naturalWidth naturalHeight) = binaryToHex ?bits"
    by (simp add: calculateImageHash_def dHashBits_specBit [OF px])
  have len: "length ?bits = 4 * 16"
    using length_concat_rows [of "specBit pixels" 8 8] by simp
  have bin: "list_all isBinaryDigit ?bits"
    by (simp add: list_all_iff specBit_binary)
  note enc = binaryToHex_encodes [OF bin len]
  have nth: "?bits ! (row * 8 + col) = specBit pixels row col" if "row < 8" "col < 8" for row col
    using that by (rule nth_concat_rows)
  have chars: "\<exists>v < 16. binaryToHex ?bits ! k = digitChar v
      \<and> (\<forall>i < 4. nibbleBits v ! i = specBit pixels (k div 2) (4 * (k mod 2) + i))"
    if k: "k < 16" for k
  proof -
    from enc k obtain v where v: "v < 16" "binaryToHex ?bits ! k = digitChar v"
      "nibbleBits v = take 4 (drop (4 * k) ?bits)" by blast
    have "nibbleBits v ! i = specBit pixels (k div 2) (4 * (k mod 2) + i)" if i: "i < 4" for i
    proof -
      have idx: "4 * k + i = (k div 2) * 8 + (4 * (k mod 2) + i)" by presburger
      have "nibbleBits v ! i = ?bits ! (4 * k + i)"
        unfolding v(3) using i k len by simp
      also have "\<dots> = specBit pixels (k div 2) (4 * (k mod 2) + i)"
      proof -
        have "k div 2 < 8" using k by simp
        moreover have "4 * (k mod 2) + i < 8" using i by presburger
        ultimately show ?thesis unfolding idx by (rule nth)
      qed
      finally show ?thesis .
    qed
    then show ?thesis using v by blast
  qed
  show ?thesis
    unfolding h using enc nth chars len by (simp add: specBit_def)
qed

lemma onePixelImage_grays:
  "grayAt onePixelImage 0 0 = Num 0 0" "grayAt onePixelImage 0 1 = Num 255 0"
  "grayAt onePixelImage 0 (Suc 0) = Num 255 0" "grayAt onePixelImage 0 2 = Num 0 0"
  by code_simp+

text \<open>
  The image with one white pixel at row 0, column 1: bit \<open>(0, 0)\<close> is 1 (black is darker
  than white), bit \<open>(0, 1)\<close> is 0.
\<close>

theorem calculateImageHash_dHash_witness:
  "length onePixelImage = 4 * (9 * 8)
   \<and> length (hash (calculateImageHash onePixelImage 9 8)) = 16
   \<and> hexToBinary (hash (calculateImageHash onePixelImage 9 8)) ! 0 = CHR ''1''
   \<and> hexToBinary (hash (calculateImageHash onePixelImage 9 8)) ! 1 = CHR ''0''"
proof -
  have len: "length onePixelImage = 4 * (9 * 8)"
    by (simp add: onePixelImage_def)
  from calculateImageHash_dHash [OF len, of 9 8]
  have bits: "\<forall>row < 8. \<forall>col < 8.
      hexToBinary (hash (calculateImageHash onePixelImage 9 8)) ! (row * 8 + col)
        = (if numLess (grayAt onePixelImage row col) (grayAt onePixelImage row (col + 1))
           then CHR ''1'' else CHR ''0'')"
    and l16: "length (hash (calculateImageHash onePixelImage 9 8)) = 16"
    by blast+
  have b0: "hexToBinary (hash (calculateImageHash onePixelImage 9 8)) ! 0 = CHR ''1''"
    using bits [rule_format, of 0 0] by (simp add: onePixelImage_grays)
  have b1: "hexToBinary (hash (calculateImageHash onePixelImage 9 8)) ! 1 = CHR ''0''"
    using bits [rule_format, of 0 1] by (simp add: onePixelImage_grays del: One_nat_def)
  show ?thesis using len l16 b0 b1 by blast
qed

lemma tieImage_hash: "hash (calculateImageHash tieImage 9 8) = ''0000000000000000''"
  by code_simp

lemma tieImage_grays:
  "grayAt tieImage 0 0 = Num 11 1" "grayAt tieImage 0 (Suc 0) = Num 11 1"
  by code_simp+

lemma tieImage_luminances:
  "roundedLuminance (tieImage ! 0) (tieImage ! Suc 0) (tieImage ! 2) = 22"
  "exactLuminance1000 (tieImage ! 4) (tieImage ! 5) (tieImage ! 6) = 22500"
  "roundedLuminance (tieImage ! 4) (tieImage ! 5) (tieImage ! 6) = 23"
  by code_simp+

text \<open>
  Claim C3 as stated fails: in \<open>tieImage\<close> the luminance of the pixel at row 0, column 0
  is 22 and that of the pixel to its right is \<open>22.5\<close>, which rounds to 23, so that bit
  \<open>(0, 0)\<close> should be 1.  The doubles give \<open>22.499999999999996\<close> for the second pixel, the
  gray values that the code compares are both 22 (\<open>11 * 2\<close>), and the bit is 0.
\<close>

theorem calculateImageHash_tie_counterexample:
  "roundedLuminance (tieImage ! 0) (tieImage ! 1) (tieImage ! 2) = 22
   \<and> roundedLuminance (tieImage ! 4) (tieImage ! 5) (tieImage ! 6) = 23
   \<and> grayAt tieImage 0 0 = Num 11 1 \<and> grayAt tieImage 0 1 = Num 11 1
   \<and> hexToBinary (hash (calculateImageHash tieImage 9 8)) ! 0 = CHR ''0''"
  by (simp add: tieImage_hash tieImage_grays tieImage_luminances hexToBinary_concat
      hexCharBits_0)

text \<open>
  At the colours whose luminance lies halfway between two integers the code rounds now
  down and now up, whatever the parity of the integer below: \<open>22.5\<close> and \<open>59.5\<close> become 22
  and 59, \<open>28.5\<close> becomes 29.
\<close>

lemma grayValue_at_ties:
  "exactLuminance1000 0 36 12 = 22500 \<and> grayValue (ofByte 0) (ofByte 36) (ofByte 12) = Num 11 1"
  "exactLuminance1000 0 80 110 = 59500 \<and> grayValue (ofByte 0) (ofByte 80) (ofByte 110) = Num 59 0"
  "exactLuminance1000 0 0 250 = 28500 \<and> grayValue (ofByte 0) (ofByte 0) (ofByte 250) = Num 29 0"
  by code_simp+


section \<open>Properties of findBestJpegPreview\<close>


lemma markerAt_pair: "markerAt data [b0, b1] i \<longleftrightarrow> data ! i = b0 \<and> data ! (i + 1) = b1"
  by (simp add: markerAt_def upt_conv_Cons del: upt_Suc)

lemma find_upt_Cons:
  "i < n \<Longrightarrow> find P [i..<n] = (if P i then Some i else find P [Suc i..<n])"
  by (simp add: upt_conv_Cons del: upt_Suc)

lemma findJpegMarker_find:
  "findJpegMarker data [b0, b1] i =
     (case find (pairAt data b0 b1) [i..<length data] of None \<Rightarrow> - 1 | Some p \<Rightarrow> int p)"
proof (induction "length data - i" arbitrary: i)
  case 0
  then have ge: "length data \<le> i" by simp
  then have "findJpegMarker data [b0, b1] i = - 1"
    by (subst findJpegMarker.simps) simp
  then show ?case using ge by simp
next
  case (Suc k)
  then have lt: "i < length data" and k: "k = length data - Suc i" by simp_all
  note IH = Suc.hyps(1) [OF k]
  show ?case
  proof (cases "i + 2 \<le> length data")
    case True
    show ?thesis
    proof (cases "pairAt data b0 b1 i")
      case p: True
      then have "markerAt data [b0, b1] i" by (simp add: markerAt_pair pairAt_def)
      then have "findJpegMarker data [b0, b1] i = int i"
        using True by (subst findJpegMarker.simps) simp
      then show ?thesis using p lt by (simp add: find_upt_Cons)
    next
      case np: False
      then have "\<not> markerAt data [b0, b1] i" using True by (simp add: markerAt_pair pairAt_def)
      then have "findJpegMarker data [b0, b1] i = findJpegMarker data [b0, b1] (Suc i)"
        using True by (subst findJpegMarker.simps) simp
      then show ?thesis using IH np lt by (simp add: find_upt_Cons)
    qed
  next
    case False
    then have "findJpegMarker data [b0, b1] i = - 1"
      by (subst findJpegMarker.simps) simp
    moreover have "find (pairAt data b0 b1) [i..<length data] = None"
      using False by (auto simp: find_None_iff pairAt_def)
    ultimately show ?thesis by simp
  qed
qed

lemma find_upt_None: "find P [i..<n] = None \<Longrightarrow> filter P [i..<n] = []"
  by (auto simp: find_None_iff filter_empty_conv)

lemma find_upt_Some:
  "find P [i..<n] = Some p \<Longrightarrow>
   i \<le> p \<and> p < n \<and> P p \<and> filter P [i..<n] = p # filter P [Suc p..<n]"
proof (induction "n - i" arbitrary: i)
  case 0
  then show ?case by simp
next
  case (Suc k)
  then have lt: "i < n" and k: "k = n - Suc i" by simp_all
  show ?case
  proof (cases "P i")
    case True
    then have "p = i" using Suc.prems lt by (simp add: find_upt_Cons)
    then show ?thesis using True lt upt_conv_Cons [OF lt] by simp
  next
    case False
    then have "find P [Suc i..<n] = Some p" using Suc.prems lt by (simp add: find_upt_Cons)
    from Suc.hyps(1) [OF k this] show ?thesis
      using False lt upt_conv_Cons [OF lt] by simp
  qed
qed

lemma soi_not_next: "pairAt data 0xFF 0xD8 p \<Longrightarrow> \<not> pairAt data 0xFF 0xD8 (Suc p)"
  by (auto simp: pairAt_def)

lemma filter_skip_next:
  assumes "pairAt data 0xFF 0xD8 p"
  shows "filter (pairAt data 0xFF 0xD8) [Suc p..<n] = filter (pairAt data 0xFF 0xD8) [p + 2..<n]"
proof (cases "Suc p < n")
  case True
  then show ?thesis using soi_not_next [OF assms] by (simp add: upt_conv_Cons del: upt_Suc)
next
  case False
  then show ?thesis by simp
qed

lemma length_slice: "e \<le> length data \<Longrightarrow> length (slice data s e) = e - s"
  by (simp add: slice_def)

lemma scanPreviews_candidates:
  "scanPreviews data searchStart jpegPreviews =
     jpegPreviews @ concat (map (spanFrom data)
        (filter (pairAt data 0xFF 0xD8) [searchStart..<length data]))"
proof (induction data searchStart jpegPreviews rule: scanPreviews.induct)
  case (1 data searchStart jpegPreviews)
  show ?case
  proof (cases "searchStart < length data")
    case False
    then show ?thesis by (subst scanPreviews.simps) simp
  next
    case True
    show ?thesis
    proof (cases "find (pairAt data 0xFF 0xD8) [searchStart..<length data]")
      case None
      then have "findJpegMarker data [0xFF, 0xD8] searchStart < 0"
        by (simp add: findJpegMarker_find)
      then have "scanPreviews data searchStart jpegPreviews = jpegPreviews"
        using True by (subst scanPreviews.simps) (simp add: Let_def)
      then show ?thesis using find_upt_None [OF None] by simp
    next
      case (Some p)
      then have js: "findJpegMarker data [0xFF, 0xD8] searchStart = int p"
        by (simp add: findJpegMarker_find)
      note fp = find_upt_Some [OF Some]
      have soi: "pairAt data 0xFF 0xD8 p" using fp by simp
      have filt: "filter (pairAt data 0xFF 0xD8) [searchStart..<length data]
          = p # filter (pairAt data 0xFF 0xD8) [p + 2..<length data]"
        using fp filter_skip_next [OF soi] by simp
      define jpegEnd where "jpegEnd = findJpegMarker data [0xFF, 0xD9] (p + 2)"
      define pushed where "pushed =
          (if jpegEnd \<ge> 0 \<and> jpegEnd > int p
           then let jpegData = slice data p (nat jpegEnd + 2) in
                if length jpegData > 1024 then jpegPreviews @ [jpegData] else jpegPreviews
           else jpegPreviews)"
      have step: "scanPreviews data searchStart jpegPreviews = scanPreviews data (p + 2) pushed"
        unfolding pushed_def jpegEnd_def
        using True js
        by (subst scanPreviews.simps) (simp add: Let_def)
      have nn: "\<not> findJpegMarker data [0xFF, 0xD8] searchStart < 0" using js by simp
      have IH: "scanPreviews data (p + 2) pushed =
          pushed @ concat (map (spanFrom data) (filter (pairAt data 0xFF 0xD8) [p + 2..<length data]))"
        unfolding pushed_def jpegEnd_def Let_def
        by (rule "1.IH" [OF True refl nn refl, unfolded js Let_def nat_int])
      have pushed_eq: "pushed = jpegPreviews @ spanFrom data p"
      proof (cases "find (pairAt data 0xFF 0xD9) [p + 2..<length data]")
        case None
        then have "jpegEnd < 0" unfolding jpegEnd_def by (simp add: findJpegMarker_find)
        then show ?thesis unfolding pushed_def using None by (simp add: spanFrom_def)
      next
        case (Some e)
        then have je: "jpegEnd = int e" unfolding jpegEnd_def by (simp add: findJpegMarker_find)
        from find_upt_Some [OF Some] have e: "p + 2 \<le> e" "e < length data"
          "pairAt data 0xFF 0xD9 e" by simp_all
        then have "e + 2 \<le> length data" by (simp add: pairAt_def)
        then have "length (slice data p (e + 2)) = e + 2 - p" by (rule length_slice)
        then show ?thesis unfolding pushed_def je using Some e(1)
          by (simp add: spanFrom_def Let_def)
      qed
      show ?thesis using IH unfolding step pushed_eq filt by simp
    qed
  qed
qed

lemma foldl_largest:
  "foldl (\<lambda>largest current. if length current > length largest then current else largest) x xs
     \<in> set (x # xs)
   \<and> (\<forall>c \<in> set (x # xs).
        length c \<le> length (foldl (\<lambda>largest current.
           if length current > length largest then current else largest) x xs))"
proof (induction xs arbitrary: x)
  case Nil
  then show ?case by simp
next
  case (Cons y ys)
  show ?case
  proof (cases "length y > length x")
    case True
    then show ?thesis using Cons [of y] by auto
  next
    case False
    then show ?thesis using Cons [of x] by auto
  qed
qed

lemma findBestJpegPreview_largest:
  "(findBestJpegPreview data = None \<longleftrightarrow> scanPreviews data 0 [] = [])
   \<and> (\<forall>r. findBestJpegPreview data = Some r \<longrightarrow>
        r \<in> set (scanPreviews data 0 []) \<and> (\<forall>c \<in> set (scanPreviews data 0 []). length c \<le> length r))"
proof (cases "scanPreviews data 0 []")
  case Nil
  then show ?thesis by (simp add: findBestJpegPreview_def)
next
  case (Cons x xs)
  then show ?thesis
    using foldl_largest [of x xs] by (simp add: findBestJpegPreview_def)
qed

lemma find_upt_first:
  "i \<le> p \<Longrightarrow> p < n \<Longrightarrow> P p \<Longrightarrow> \<forall>q. i \<le> q \<and> q < p \<longrightarrow> \<not> P q \<Longrightarrow> find P [i..<n] = Some p"
proof (induction "p - i" arbitrary: i)
  case 0
  then have "i = p" by simp
  then show ?case using 0 by (simp add: find_upt_Cons)
next
  case (Suc k)
  then have lt: "i < p" and k: "k = p - Suc i" by simp_all
  have "\<not> P i" using Suc.prems(4) lt by simp
  moreover have "find P [Suc i..<n] = Some p"
    using Suc.hyps(1) [OF k] Suc.prems lt by simp
  ultimately show ?case using lt Suc.prems(2) by (simp add: find_upt_Cons)
qed

lemma filter_upt_two:
  assumes "\<forall>i < n. P i \<longleftrightarrow> i = a \<or> i = b" and "a < b" and "b < n"
  shows "filter P [0..<n] = [a, b]"
proof -
  have "set (filter P [0..<n]) = set [a, b]" using assms by auto
  moreover have "sorted (filter P [0..<n])" by (simp add: sorted_wrt_filter)
  moreover have "distinct (filter P [0..<n])" by simp
  moreover have "sorted [a, b]" "distinct [a, b]" using assms(2) by simp_all
  ultimately show ?thesis by (metis sorted_distinct_set_unique)
qed

lemma length_twoSpans: "length twoSpans = 45056"
  by (simp add: twoSpans_def span4k_def span40k_def)

lemma twoSpans_nth:
  "q < 45056 \<Longrightarrow>
   twoSpans ! q =
     (if q = 0 \<or> q = 4094 \<or> q = 4096 \<or> q = 45054 then 0xFF
      else if q = 1 \<or> q = 4097 then 0xD8
      else if q = 4095 \<or> q = 45055 then 0xD9
      else 0)"
  by (simp add: twoSpans_def span4k_def span40k_def nth_append nth_Cons', arith)

lemma twoSpans_soi: "i < 45056 \<Longrightarrow> pairAt twoSpans 0xFF 0xD8 i \<longleftrightarrow> i = 0 \<or> i = 4096"
proof (cases "i + 1 < 45056")
  case True
  assume "i < 45056"
  then show ?thesis
    unfolding pairAt_def length_twoSpans using True
    by (simp add: twoSpans_nth)
next
  case False
  assume "i < 45056"
  then show ?thesis using False by (simp add: pairAt_def length_twoSpans)
qed

lemma twoSpans_eoi: "i < 45056 \<Longrightarrow> pairAt twoSpans 0xFF 0xD9 i \<longleftrightarrow> i = 4094 \<or> i = 45054"
proof (cases "i + 1 < 45056")
  case True
  assume "i < 45056"
  then show ?thesis
    unfolding pairAt_def length_twoSpans using True
    by (simp add: twoSpans_nth)
next
  case False
  assume "i < 45056"
  then show ?thesis using False by (simp add: pairAt_def length_twoSpans)
qed

lemma twoSpans_starts: "filter (pairAt twoSpans 0xFF 0xD8) [0..<length twoSpans] = [0, 4096]"
  unfolding length_twoSpans by (rule filter_upt_two) (simp_all add: twoSpans_soi)

lemma twoSpans_end1: "find (pairAt twoSpans 0xFF 0xD9) [0 + 2..<length twoSpans] = Some 4094"
  unfolding length_twoSpans by (rule find_upt_first) (simp_all add: twoSpans_eoi)

lemma twoSpans_end2: "find (pairAt twoSpans 0xFF 0xD9) [4096 + 2..<length twoSpans] = Some 45054"
  unfolding length_twoSpans by (rule find_upt_first) (simp_all add: twoSpans_eoi)

lemma length_span4k: "length span4k = 4096"
  by (simp add: span4k_def)

lemma length_span40k: "length span40k = 40960"
  by (simp add: span40k_def)

lemma slice_first: "slice twoSpans 0 4096 = span4k"
  by (simp add: slice_def twoSpans_def length_span4k)

lemma slice_second: "slice twoSpans 4096 45056 = span40k"
  by (simp add: slice_def twoSpans_def length_span4k length_span40k)

lemma spanFrom_first: "spanFrom twoSpans 0 = [span4k]"
  unfolding spanFrom_def twoSpans_end1 by (simp add: slice_first)

lemma spanFrom_second: "spanFrom twoSpans 4096 = [span40k]"
  unfolding spanFrom_def twoSpans_end2 by (simp add: slice_second)

lemma candidateSpans_twoSpans: "candidateSpans twoSpans = [span4k, span40k]"
  unfolding candidateSpans_def twoSpans_starts
  by (simp add: spanFrom_first spanFrom_second)

lemma find_upt_min:
  "find P [i..<n] = Some p \<Longrightarrow> i \<le> q \<Longrightarrow> q < p \<Longrightarrow> \<not> P q"
proof (induction "n - i" arbitrary: i)
  case 0
  then show ?case by simp
next
  case (Suc k)
  then have lt: "i < n" and k: "k = n - Suc i" by simp_all
  show ?case
  proof (cases "P i")
    case True
    then have "p = i" using Suc.prems(1) lt by (simp add: find_upt_Cons)
    then show ?thesis using Suc.prems by simp
  next
    case False
    then have f: "find P [Suc i..<n] = Some p" using Suc.prems(1) lt by (simp add: find_upt_Cons)
    show ?thesis
    proof (cases "q = i")
      case True
      then show ?thesis using False by simp
    next
      case neq: False
      then have "Suc i \<le> q" using Suc.prems(2) by simp
      from Suc.hyps(1) [OF k f this Suc.prems(3)] show ?thesis .
    qed
  qed
qed

lemma find_upt_iff:
  "find P [i..<n] = Some p \<longleftrightarrow>
   i \<le> p \<and> p < n \<and> P p \<and> (\<forall>q. i \<le> q \<and> q < p \<longrightarrow> \<not> P q)"
  using find_upt_Some [of P i n p] find_upt_min [of P i n p] find_upt_first [of i p n P]
  by blast

lemma candidateSpans_member:
  "c \<in> set (candidateSpans data) \<longleftrightarrow>
   (\<exists>s e. pairAt data 0xFF 0xD8 s \<and> pairAt data 0xFF 0xD9 e \<and> s + 2 \<le> e
      \<and> (\<forall>q. s + 2 \<le> q \<and> q < e \<longrightarrow> \<not> pairAt data 0xFF 0xD9 q)
      \<and> e + 2 - s > 1024 \<and> c = slice data s (e + 2))"
proof
  assume "c \<in> set (candidateSpans data)"
  then obtain s where s: "s < length data" "pairAt data 0xFF 0xD8 s" "c \<in> set (spanFrom data s)"
    by (auto simp: candidateSpans_def)
  have "\<exists>e. find (pairAt data 0xFF 0xD9) [s + 2..<length data] = Some e
      \<and> e + 2 - s > 1024 \<and> c = slice data s (e + 2)"
  proof (cases "find (pairAt data 0xFF 0xD9) [s + 2..<length data]")
    case None
    then show ?thesis using s(3) by (simp add: spanFrom_def)
  next
    case (Some e)
    then show ?thesis using s(3) by (simp add: spanFrom_def split: if_splits)
  qed
  then obtain e where e: "find (pairAt data 0xFF 0xD9) [s + 2..<length data] = Some e"
    "e + 2 - s > 1024" "c = slice data s (e + 2)"
    by blast
  from e(1) have "s + 2 \<le> e" "pairAt data 0xFF 0xD9 e"
    "\<forall>q. s + 2 \<le> q \<and> q < e \<longrightarrow> \<not> pairAt data 0xFF 0xD9 q"
    by (simp_all add: find_upt_iff)
  then show "\<exists>s e. pairAt data 0xFF 0xD8 s \<and> pairAt data 0xFF 0xD9 e \<and> s + 2 \<le> e
      \<and> (\<forall>q. s + 2 \<le> q \<and> q < e \<longrightarrow> \<not> pairAt data 0xFF 0xD9 q)
      \<and> e + 2 - s > 1024 \<and> c = slice data s (e + 2)"
    using s(2) e(2,3) by blast
next
  assume "\<exists>s e. pairAt data 0xFF 0xD8 s \<and> pairAt data 0xFF 0xD9 e \<and> s + 2 \<le> e
      \<and> (\<forall>q. s + 2 \<le> q \<and> q < e \<longrightarrow> \<not> pairAt data 0xFF 0xD9 q)
      \<and> e + 2 - s > 1024 \<and> c = slice data s (e + 2)"
  then obtain s e where s: "pairAt data 0xFF 0xD8 s" and e: "pairAt data 0xFF 0xD9 e"
    and se: "s + 2 \<le> e" and m: "\<forall>q. s + 2 \<le> q \<and> q < e \<longrightarrow> \<not> pairAt data 0xFF 0xD9 q"
    and l: "e + 2 - s > 1024" and c: "c = slice data s (e + 2)" by blast
  have "e < length data" using e by (simp add: pairAt_def)
  then have "find (pairAt data 0xFF 0xD9) [s + 2..<length data] = Some e"
    using e se m by (simp add: find_upt_iff)
  then have "spanFrom data s = [c]" using l c by (simp add: spanFrom_def)
  moreover have "s < length data" using s by (simp add: pairAt_def)
  ultimately show "c \<in> set (candidateSpans data)"
    using s by (auto simp: candidateSpans_def intro!: bexI [of _ s])
qed

text \<open>
  Claim C5.  For every buffer, the spans that \<open>findBestJpegPreview\<close> collects are exactly the
  candidates: the spans from an occurrence of the start marker \<open>FF D8\<close> to the nearest end
  marker \<open>FF D9\<close> after it, markers included, that are longer than 1024 bytes.  It returns
  \<open>null\<close> exactly when there is no candidate, and otherwise a candidate that no candidate
  exceeds in length.  When the candidates are a span of 4 KiB and a span of 40 KiB, in
  either order, it returns the span of 40 KiB.
\<close>

theorem findBestJpegPreview_largest_candidate:
  "scanPreviews data 0 [] = candidateSpans data
   \<and> (\<forall>c. c \<in> set (candidateSpans data) \<longleftrightarrow>
        (\<exists>s e. pairAt data 0xFF 0xD8 s \<and> pairAt data 0xFF 0xD9 e \<and> s + 2 \<le> e
           \<and> (\<forall>q. s + 2 \<le> q \<and> q < e \<longrightarrow> \<not> pairAt data 0xFF 0xD9 q)
           \<and> e + 2 - s > 1024 \<and> c = slice data s (e + 2)))
   \<and> (findBestJpegPreview data = None \<longleftrightarrow> candidateSpans data = [])
   \<and> (\<forall>r. findBestJpegPreview data = Some r \<longrightarrow>
        r \<in> set (candidateSpans data) \<and> (\<forall>c \<in> set (candidateSpans data). length c \<le> length r))
   \<and> (\<forall>small large. length small = 4096 \<and> length large = 40960
        \<and> (candidateSpans data = [small, large] \<or> candidateSpans data = [large, small])
        \<longrightarrow> findBestJpegPreview data = Some large)"
proof -
  have eq: "scanPreviews data 0 [] = candidateSpans data"
    by (simp add: scanPreviews_candidates candidateSpans_def)
  have two: "findBestJpegPreview data = Some large"
    if "length small = 4096" "length large = 40960"
      "candidateSpans data = [small, large] \<or> candidateSpans data = [large, small]"
    for small large
    using that by (auto simp: findBestJpegPreview_def eq)
  show ?thesis
    using eq candidateSpans_member [of _ data] findBestJpegPreview_largest [of data] two
    unfolding eq by blast
qed

text \<open>The buffer made of a 4 KiB span followed by a 40 KiB span.\<close>

theorem findBestJpegPreview_largest_candidate_witness:
  "candidateSpans twoSpans = [span4k, span40k]
   \<and> length span4k = 4096 \<and> length span40k = 40960
   \<and> findBestJpegPreview twoSpans = Some span40k"
  using findBestJpegPreview_largest_candidate [of twoSpans]
    candidateSpans_twoSpans length_span4k length_span40k
  by blast


section \<open>Properties of calculateBlurScore\<close>


















section \<open>Properties of the directory scanner\<close>


lemma scanInv_initial: "scanInv initialSystem"
  by (simp add: scanInv_def initialSystem_def newScanner_def)

lemma scanInv_scanDirectory: "scanInv s \<Longrightarrow> scanInv (scanDirectory d s)"
  by (auto simp: scanInv_def scanDirectory_def)

lemma single_task: "length ts \<le> 1 \<Longrightarrow> i < length ts \<Longrightarrow> i = 0 \<and> ts = [ts ! 0]"
  by (cases ts) auto

lemma scanInv_finishScan:
  "scanInv s \<Longrightarrow> i < length (tasks s) \<Longrightarrow> scanInv (finishScan i result s)"
  by (auto simp: scanInv_def finishScan_def dropTask_def dest: single_task)

lemma scanInv_nextFile:
  "scanInv s \<Longrightarrow> i < length (tasks s) \<Longrightarrow> scanInv (nextFile i d files ps s)"
proof (cases files)
  case Nil
  assume "scanInv s" "i < length (tasks s)"
  then have "scanInv (finishScan i (Returned ps)
      (s\<lparr>scanner := (scanner s)\<lparr>progress := (progress (scanner s))\<lparr>phase := ''complete''\<rparr>\<rparr>\<rparr>))"
    by (intro scanInv_finishScan) (simp_all add: scanInv_def)
  then show ?thesis using Nil by (simp add: nextFile_def)
next
  case (Cons f rest)
  assume "scanInv s" "i < length (tasks s)"
  then show ?thesis using Cons by (auto simp: nextFile_def scanInv_def)
qed

lemma scanInv_step: "scanInv s \<Longrightarrow> scanInv (step e s)"
proof (cases e)
  case (Call d)
  assume "scanInv s"
  then show ?thesis using Call by (simp add: step_def scanInv_scanDirectory)
next
  case (AccessSettled i ok)
  assume "scanInv s"
  then show ?thesis using AccessSettled
    by (auto simp: step_def scanInv_def split: task.splits)
next
  case (MkdirSettled i ok)
  assume inv: "scanInv s"
  then show ?thesis using MkdirSettled scanInv_finishScan [OF inv, of i]
    by (auto simp: step_def scanInv_def split: task.splits)
next
  case (FilesFound i files)
  assume inv: "scanInv s"
  show ?thesis
  proof (cases "i < length (tasks s)")
    case True
    have "scanInv (s\<lparr>scanner := (scanner s)\<lparr>progress := (progress (scanner s))
        \<lparr>totalFiles := length files, phase := ''analyzing''\<rparr>\<rparr>\<rparr>)"
      using inv by (simp add: scanInv_def)
    from scanInv_nextFile [OF this, of i] True inv show ?thesis
      using FilesFound by (simp add: step_def split: task.splits)
  next
    case False
    then show ?thesis using inv FilesFound by (simp add: step_def)
  qed
next
  case (FileProcessed i result)
  assume inv: "scanInv s"
  show ?thesis
  proof (cases "i < length (tasks s)")
    case True
    have "scanInv (s\<lparr>scanner := (scanner s)\<lparr>progress := (progress (scanner s))
        \<lparr>processedFiles := processedFiles (progress (scanner s)) + 1\<rparr>\<rparr>\<rparr>)"
      using inv by (simp add: scanInv_def)
    from scanInv_nextFile [OF this, of i] True inv show ?thesis
      using FileProcessed by (simp add: step_def split: task.splits)
  next
    case False
    then show ?thesis using inv FileProcessed by (simp add: step_def)
  qed
qed

lemma scanInv_run: "scanInv s \<Longrightarrow> scanInv (run events s)"
  unfolding run_def by (induction events arbitrary: s) (simp_all add: scanInv_step)

text \<open>
  Claim C9.  In every state that the scanner reaches, at most one scan is in flight and
  \<open>isScanning\<close> is set exactly while one is.  A call of \<open>scanDirectory\<close> made while a scan
  is in flight is rejected at once with \<open>Scan already in progress\<close>: it changes neither the
  scanner object nor the scan in flight, and no task is added.  Whenever a step ends the
  scan in flight, by return or by an error, the flag is reset, and a call made when no scan
  is in flight starts a scan.
\<close>

theorem scanDirectory_exclusive:
  assumes "s = run events initialSystem"
  shows "length (tasks s) \<le> 1
     \<and> (isScanning (scanner s) \<longleftrightarrow> tasks s \<noteq> [])
     \<and> (tasks s \<noteq> [] \<longrightarrow>
          step (Call directoryPath) s
            = s\<lparr>finished := finished s @ [Threw ''Scan already in progress'']\<rparr>)
     \<and> (tasks s = [] \<longrightarrow>
          tasks (step (Call directoryPath) s) = [AwaitAccess directoryPath]
          \<and> isScanning (scanner (step (Call directoryPath) s))
          \<and> finished (step (Call directoryPath) s) = finished s)
     \<and> (\<forall>e. tasks (step e s) = [] \<longrightarrow> \<not> isScanning (scanner (step e s)))
     \<and> (\<forall>d. tasks s = [AwaitMkdir d] \<longrightarrow>
          tasks (step (MkdirSettled 0 False) s) = []
          \<and> \<not> isScanning (scanner (step (MkdirSettled 0 False) s))
          \<and> finished (step (MkdirSettled 0 False) s) = finished s @ [Threw ''mkdir failed''])"
proof -
  have inv: "scanInv s"
    unfolding assms by (rule scanInv_run [OF scanInv_initial])
  then have one: "length (tasks s) \<le> 1" and flag: "isScanning (scanner s) \<longleftrightarrow> tasks s \<noteq> []"
    by (simp_all add: scanInv_def)
  have busy: "step (Call directoryPath) s
      = s\<lparr>finished := finished s @ [Threw ''Scan already in progress'']\<rparr>" if "tasks s \<noteq> []"
    using that flag by (simp add: step_def scanDirectory_def)
  have idle: "tasks (step (Call directoryPath) s) = [AwaitAccess directoryPath]
          \<and> isScanning (scanner (step (Call directoryPath) s))
          \<and> finished (step (Call directoryPath) s) = finished s" if "tasks s = []"
    using that flag by (simp add: step_def scanDirectory_def)
  have reset: "\<not> isScanning (scanner (step e s))" if "tasks (step e s) = []" for e
    using scanInv_step [OF inv, of e] that by (simp add: scanInv_def)
  have err: "tasks (step (MkdirSettled 0 False) s) = []
          \<and> \<not> isScanning (scanner (step (MkdirSettled 0 False) s))
          \<and> finished (step (MkdirSettled 0 False) s) = finished s @ [Threw ''mkdir failed'']"
    if "tasks s = [AwaitMkdir d]" for d
    using that by (simp add: step_def finishScan_def dropTask_def)
  show ?thesis using one flag busy idle reset err by blast
qed

lemma exampleRun_state:
  "run exampleRun initialSystem =
     \<lparr>scanner = \<lparr>isScanning = False,
        progress = \<lparr>totalFiles = 0, processedFiles = 0, currentFile = [], phase = ''complete''\<rparr>,
        thumbnailsDir = Some ''/a/_thumbnails''\<rparr>,
      tasks = [],
      finished = [Threw ''Scan already in progress'', Returned []]\<rparr>"
  by (simp add: run_def exampleRun_def initialSystem_def newScanner_def initialProgress_def
      step_def scanDirectory_def joinPath_def nextFile_def finishScan_def dropTask_def)

text \<open>
  The example run: the call for \<open>/b\<close> is rejected while the scan of \<open>/a\<close> is in flight, the
  scan of \<open>/a\<close> returns and resets the flag, and a call for \<open>/c\<close> then starts a scan.
\<close>

theorem scanDirectory_exclusive_witness:
  "finished (run exampleRun initialSystem) = [Threw ''Scan already in progress'', Returned []]
   \<and> tasks (run exampleRun initialSystem) = []
   \<and> \<not> isScanning (scanner (run exampleRun initialSystem))
   \<and> tasks (step (Call ''/c'') (run exampleRun initialSystem)) = [AwaitAccess ''/c'']
   \<and> isScanning (scanner (step (Call ''/c'') (run exampleRun initialSystem)))"
  using scanDirectory_exclusive [OF refl, of exampleRun "''/c''"]
  by (simp add: exampleRun_state)


section \<open>Properties of the trash handlers\<close>


lemma filePaths_removeFile: "fst ` set (removeFile p fs) = fst ` set fs - {p}"
  by (auto simp: removeFile_def)

lemma filePaths_consoleLog [simp]: "filePaths (consoleLog l w) = filePaths w"
  by (simp add: filePaths_def consoleLog_def)

lemma wLocked_consoleLog [simp]: "wLocked (consoleLog l w) = wLocked w"
  by (simp add: consoleLog_def)

lemma deletable_consoleLog [simp]: "deletable (consoleLog l w) = deletable w"
  by (intro ext) (simp add: deletable_def)

lemma wConsole_consoleLog [simp]: "wConsole (consoleLog l w) = wConsole w @ [l]"
  by (simp add: consoleLog_def)

lemma fsUnlink_Some:
  "fsUnlink p w = Some w' \<longleftrightarrow> deletable w p \<and> w' = w\<lparr>wFiles := removeFile p (wFiles w)\<rparr>"
  by (auto simp: fsUnlink_def deletable_def)


lemma fsUnlink_effect:
  assumes "fsUnlink p w = Some w'"
  shows "filePaths w' = filePaths w - {p}" "wLocked w' = wLocked w" "wConsole w' = wConsole w"
  using assms by (auto simp: fsUnlink_Some filePaths_def filePaths_removeFile)

lemma deletable_after_unlink:
  "fsUnlink p w = Some w' \<Longrightarrow> q \<noteq> p \<Longrightarrow> deletable w' q = deletable w q"
  by (auto simp: deletable_def dest: fsUnlink_effect)











lemma sidecarOf_fields [simp]:
  "md_tempPath (sidecarOf i n) = Some (''/p/.trash/'' @ n)"
  "md_filename (sidecarOf i n) = n"
  by (simp_all add: sidecarOf_def)

lemma backingPath_sidecarOf [simp]:
  "backingPath ((sidecarOf i n)\<lparr>md_trashDir := d\<rparr>) = ''/p/.trash/'' @ n"
  by (simp add: backingPath_def)

lemma truthy_Some [simp]: "truthy (Some (c # s))"
  by (simp add: truthy_def)







section \<open>Properties of the move-to-trash handler\<close>



lemma startsWith_joinPath [simp]: "startsWith (joinPath d n) (d @ ''/'')"
  by (simp add: startsWith_def joinPath_def)

lemma moveBody_skip:
  assumes "\<not> movable e w p"
  shows "\<exists>w'. moveBody e p ds w = (ds, w') \<and> wFiles w' = wFiles w \<and> wLocked w' = wLocked w
           \<and> currentScanDirectory w' = currentScanDirectory w"
proof (cases "truthy (ph_path p)")
  case False
  then show ?thesis by (simp add: moveBody_def consoleLog_def)
next
  case t: True
  show ?thesis
  proof (cases "fsAccess (absolutePathOf e (the (ph_path p))) w")
    case False
    with t show ?thesis by (simp add: moveBody_def consoleLog_def Let_def)
  next
    case a: True
    show ?thesis
    proof (cases "getTrashDirectory w")
      case None
      with t a show ?thesis
        by (simp add: moveBody_def consoleLog_def Let_def logFailure_def)
    next
      case (Some trashDir)
      from assms t a have locked: "absolutePathOf e (the (ph_path p)) \<in> set (wLocked w)"
        by (simp add: movable_def deletable_def sourceOf_def fsAccess_def)
      have rn: "fsRename (absolutePathOf e (the (ph_path p))) np
                  (consoleLog l (snd (dateNow w))) = None" for np l
        using locked
        by (simp add: fsRename_def consoleLog_def dateNow_def split: option.splits)
      show ?thesis
        using t a Some
        by (simp add: moveBody_def Let_def split_def rn logFailure_def)
           (simp add: consoleLog_def dateNow_def)
    qed
  qed
qed

lemma moveBody_moved:
  assumes mv: "movable e w p" and dir: "currentScanDirectory w = Some baseDir"
  shows "\<exists>m w'. moveBody e p ds w = (ds @ [m], w') \<and> md_id m = ph_id p
           \<and> md_originalPath m = sourceOf e p
           \<and> wLocked w' = wLocked w \<and> currentScanDirectory w' = currentScanDirectory w
           \<and> (\<forall>s. \<not> startsWith s (joinPath baseDir ''.trash'' @ ''/'') \<longrightarrow>
                 (s \<in> filePaths w' \<longleftrightarrow> s \<in> filePaths w \<and> s \<noteq> sourceOf e p))"
proof -
  define src where "src = absolutePathOf e (the (ph_path p))"
  define trashDir where "trashDir = joinPath baseDir ''.trash''"
  define w1 where "w1 = snd (dateNow w)"
  define name where "name = toStringRadix 10 (fst (dateNow w)) @ ''_'' @ stripDecorations e (ph_filename p)"
  define trashPath where "trashPath = joinPath trashDir name"
  define w2 where "w2 = consoleLog (''Moving '' @ src @ '' to '' @ trashPath) w1"
  from mv have t: "truthy (ph_path p)" and inF: "src \<in> filePaths w" and nl: "src \<notin> set (wLocked w)"
    by (simp_all add: movable_def deletable_def sourceOf_def src_def)
  have acc: "fsAccess src w" using inF by (simp add: fsAccess_def)
  have td: "getTrashDirectory w = Some trashDir"
    by (simp add: getTrashDirectory_def dir trashDir_def)
  have f2: "wFiles w2 = wFiles w" "wLocked w2 = wLocked w"
    "currentScanDirectory w2 = currentScanDirectory w"
    by (simp_all add: w2_def w1_def consoleLog_def dateNow_def)
  from inF obtain c where c: "map_of (wFiles w) src = Some c"
    by (cases "map_of (wFiles w) src") (auto simp: filePaths_def map_of_eq_None_iff)
  define w3 where "w3 = w2\<lparr>wFiles := removeFile trashPath (removeFile src (wFiles w2)) @ [(trashPath, c)]\<rparr>"
  have rn: "fsRename src trashPath w2 = Some w3"
    by (simp add: fsRename_def f2 c nl w3_def)
  define w4 where "w4 = snd (dateNow w3)"
  define m where "m = \<lparr>md_id = ph_id p, md_originalPath = src,
     md_filename = stripDecorations e (ph_filename p), md_size = ph_size p,
     md_deletedAt = fst (dateNow w3), md_tempPath = Some trashPath, md_trashDir = []\<rparr>"
  define sidecar where "sidecar = joinPath trashDir (name @ ''.metadata.json'')"
  define w' where "w' = (case fsWriteFile sidecar (Json m) w4 of
                           None \<Rightarrow> logFailure p w4 | Some w5 \<Rightarrow> w5)"
  have body: "moveBody e p ds w = (ds @ [m], w')"
    using t acc rn td
    unfolding w'_def m_def sidecar_def w4_def w3_def w2_def trashPath_def name_def w1_def src_def
    by (simp add: moveBody_def Let_def split_def split: option.splits)
  have f4: "wFiles w4 = removeFile trashPath (removeFile src (wFiles w)) @ [(trashPath, c)]"
    "wLocked w4 = wLocked w" "currentScanDirectory w4 = currentScanDirectory w"
    by (simp_all add: w4_def w3_def f2 dateNow_def)
  have cases: "wFiles w' = wFiles w4 \<or> wFiles w' = removeFile sidecar (wFiles w4) @ [(sidecar, Json m)]"
    and l': "wLocked w' = wLocked w" and d': "currentScanDirectory w' = currentScanDirectory w"
    by (auto simp: w'_def fsWriteFile_def logFailure_def consoleLog_def f4)
  have under: "startsWith trashPath (trashDir @ ''/'')" "startsWith sidecar (trashDir @ ''/'')"
    by (simp_all add: trashPath_def sidecar_def)
  have paths: "s \<in> filePaths w' \<longleftrightarrow> s \<in> filePaths w \<and> s \<noteq> src"
    if "\<not> startsWith s (trashDir @ ''/'')" for s
  proof -
    from that under have ne: "s \<noteq> trashPath" "s \<noteq> sidecar" by auto
    have p4: "s \<in> fst ` set (wFiles w4) \<longleftrightarrow> s \<in> filePaths w \<and> s \<noteq> src"
      using ne by (auto simp: f4 filePaths_removeFile filePaths_def)
    from cases show ?thesis
    proof
      assume "wFiles w' = wFiles w4"
      then show ?thesis using p4 by (simp add: filePaths_def)
    next
      assume "wFiles w' = removeFile sidecar (wFiles w4) @ [(sidecar, Json m)]"
      then show ?thesis using p4 ne by (auto simp: filePaths_def filePaths_removeFile)
    qed
  qed
  have "md_id m = ph_id p" "md_originalPath m = sourceOf e p"
    by (simp_all add: m_def sourceOf_def src_def)
  with body l' d' paths show ?thesis
    unfolding trashDir_def sourceOf_def src_def by blast
qed

lemma moveBody_noTrash:
  assumes "currentScanDirectory w = None"
  shows "\<exists>w'. moveBody e p ds w = (ds, w')"
  using assms by (simp add: moveBody_def Let_def getTrashDirectory_def)

lemma moveBody_shape:
  "\<exists>w'. moveBody e p ds w = (ds, w')
      \<or> (\<exists>m. moveBody e p ds w = (ds @ [m], w') \<and> md_id m = ph_id p)"
proof (cases "movable e w p")
  case False
  from moveBody_skip [OF this] show ?thesis by blast
next
  case True
  show ?thesis
  proof (cases "currentScanDirectory w")
    case None
    from moveBody_noTrash [OF this] show ?thesis by blast
  next
    case (Some baseDir)
    from moveBody_moved [OF True Some] show ?thesis by blast
  qed
qed

lemma moveLoop_subseq:
  "\<exists>new w'. moveLoop e (map Some ps) ds w = (Some (ds @ new), w')
      \<and> subseq (map md_id new) (map ph_id ps)"
proof (induction ps arbitrary: ds w)
  case Nil
  show ?case by simp
next
  case (Cons p rest)
  from moveBody_shape [of e p ds w] obtain w1 where
    "moveBody e p ds w = (ds, w1)
      \<or> (\<exists>m. moveBody e p ds w = (ds @ [m], w1) \<and> md_id m = ph_id p)"
    by blast
  then show ?case
  proof
    assume b: "moveBody e p ds w = (ds, w1)"
    from Cons.IH [of ds w1] obtain new w' where
      "moveLoop e (map Some rest) ds w1 = (Some (ds @ new), w')"
      "subseq (map md_id new) (map ph_id rest)"
      by blast
    with b show ?thesis by (auto intro: subseq_Cons')
  next
    assume "\<exists>m. moveBody e p ds w = (ds @ [m], w1) \<and> md_id m = ph_id p"
    then obtain m where b: "moveBody e p ds w = (ds @ [m], w1)" and i: "md_id m = ph_id p"
      by blast
    from Cons.IH [of "ds @ [m]" w1] obtain new w' where
      l: "moveLoop e (map Some rest) (ds @ [m]) w1 = (Some (ds @ [m] @ new), w')"
      and s: "subseq (map md_id new) (map ph_id rest)"
      by auto
    have "moveLoop e (map Some (p # rest)) ds w = (Some (ds @ (m # new)), w')"
      using b l by simp
    moreover have "subseq (map md_id (m # new)) (map ph_id (p # rest))"
      using s i by simp
    ultimately show ?thesis by blast
  qed
qed


lemma movedRecords_distinct:
  assumes "distinct (map (sourceOf e) (filter (movable e w) ps))"
    and "\<forall>p \<in> set ps. movable e w p \<longrightarrow> sourceOf e p \<notin> set gone"
  shows "movedRecords e w gone ps = filter (movable e w) ps"
  using assms
proof (induction ps arbitrary: gone)
  case Nil
  show ?case by simp
next
  case (Cons q rest)
  show ?case
  proof (cases "movable e w q")
    case False
    with Cons show ?thesis by simp
  next
    case True
    have d: "distinct (map (sourceOf e) (filter (movable e w) rest))"
      and fresh: "sourceOf e q \<notin> sourceOf e ` {p \<in> set rest. movable e w p}"
      using Cons.prems(1) True by auto
    have "sourceOf e p \<notin> set (sourceOf e q # gone)" if "p \<in> set rest" "movable e w p" for p
    proof -
      from that have "sourceOf e p \<in> sourceOf e ` {p \<in> set rest. movable e w p}" by blast
      with fresh have "sourceOf e p \<noteq> sourceOf e q" by metis
      moreover from that Cons.prems(2) have "sourceOf e p \<notin> set gone" by simp
      ultimately show ?thesis by simp
    qed
    then have g: "\<forall>p \<in> set rest. movable e w p \<longrightarrow>
        sourceOf e p \<notin> set (sourceOf e q # gone)"
      by blast
    have q: "movable e w q \<and> sourceOf e q \<notin> set gone"
      using True Cons.prems(2) by simp
    have "movedRecords e w gone (q # rest) = q # movedRecords e w (sourceOf e q # gone) rest"
      using q by simp
    also have "\<dots> = q # filter (movable e w) rest"
      by (simp only: Cons.IH [OF d g])
    finally show ?thesis using True by simp
  qed
qed


lemma moveLoop_append:
  "moveLoop e (map Some ps @ xs) ds w =
     (case moveLoop e (map Some ps) ds w of
        (Some ds', w') \<Rightarrow> moveLoop e xs ds' w'
      | (None, w') \<Rightarrow> (None, w'))"
  by (induction ps arbitrary: ds w) (auto split: prod.splits option.splits)







text \<open>
  A \<open>null\<close> among the records ends the batch with status 500, whatever precedes and
  follows it.
\<close>

lemma moveToTrash_null_record:
  "fst (moveToTrash e (Some (map Some ps @ None # rest)) w) = Error500 ''TypeError''"
proof -
  from moveLoop_subseq [of e ps "[]" w] obtain ds w' where
    "moveLoop e (map Some ps) [] w = (Some ds, w')" by auto
  then show ?thesis
    by (simp add: moveToTrash_def moveLoop_append)
qed


end
